theory Spec2Isabelle
  imports Main "HOL-Library.Word" "HOL-Library.AList"
begin

section \<open>Strings\<close>

text \<open>
  A JavaScript string is a sequence of UTF-16 code units. The regular expressions of
  \<^verbatim>\<open>pull.js\<close> carry no \<^verbatim>\<open>u\<close> flag, so they work on code units too.
  ASCII literals of the source are written with \<open>js\<close>.
\<close>

type_synonym cu = "16 word"

type_synonym jsstring = "cu list"

definition js :: "string \<Rightarrow> jsstring" where
  "js s = map of_char s"

definition LF :: cu where "LF = 0x0A"

definition CR :: cu where "CR = 0x0D"

definition underscore :: cu where "underscore = 0x5F"

section \<open>NameSanitizer\<close>

text \<open>The character class \<^verbatim>\<open>[a-zA-Z0-9_]\<close>, whose complement the sanitizer replaces.\<close>

definition isWordChar :: "cu \<Rightarrow> bool" where
  "isWordChar c \<longleftrightarrow>
     (0x61 \<le> c \<and> c \<le> 0x7A) \<or> (0x41 \<le> c \<and> c \<le> 0x5A) \<or>
     (0x30 \<le> c \<and> c \<le> 0x39) \<or> c = 0x5F"

text \<open>
  \<^verbatim>\<open>s.replace(/[^a-zA-Z0-9_]/g, '_')\<close>: every code unit outside the class becomes an
  underscore. The source writes this expression inline for headers, row keys and remap
  names, and as \<^verbatim>\<open>sanitizeTableName\<close> for dataset names.
\<close>

definition sanitizeName :: "jsstring \<Rightarrow> jsstring" where
  "sanitizeName s = map (\<lambda>c. if isWordChar c then c else underscore) s"

definition sanitizeTableName :: "jsstring \<Rightarrow> jsstring" where
  "sanitizeTableName name = sanitizeName name"

section \<open>PreambleStripper\<close>

text \<open>
  The white space of \<^verbatim>\<open>String.prototype.trim\<close> and \<^verbatim>\<open>trimStart\<close>: the
  ECMAScript WhiteSpace and LineTerminator code points.
\<close>

definition isWhiteSpace :: "cu \<Rightarrow> bool" where
  "isWhiteSpace c \<longleftrightarrow>
     c = 0x09 \<or> c = 0x0A \<or> c = 0x0B \<or> c = 0x0C \<or> c = 0x0D \<or> c = 0x20 \<or> c = 0xA0 \<or>
     c = 0x1680 \<or> (0x2000 \<le> c \<and> c \<le> 0x200A) \<or> c = 0x2028 \<or> c = 0x2029 \<or>
     c = 0x202F \<or> c = 0x205F \<or> c = 0x3000 \<or> c = 0xFEFF"

definition trimStart :: "jsstring \<Rightarrow> jsstring" where
  "trimStart s = dropWhile isWhiteSpace s"

definition trimEnd :: "jsstring \<Rightarrow> jsstring" where
  "trimEnd s = rev (dropWhile isWhiteSpace (rev s))"

definition trim :: "jsstring \<Rightarrow> jsstring" where
  "trim s = trimEnd (trimStart s)"

text \<open>\<^verbatim>\<open>.replace(/\r\n/g, '\n')\<close>: matches are taken left to right and do not overlap.\<close>

fun replaceCRLF :: "jsstring \<Rightarrow> jsstring" where
  "replaceCRLF (c # d # cs) =
     (if c = CR \<and> d = LF then LF # replaceCRLF cs else c # replaceCRLF (d # cs))"
| "replaceCRLF cs = cs"

text \<open>\<^verbatim>\<open>.replace(/\r/g, '\n')\<close>\<close>

definition replaceCR :: "jsstring \<Rightarrow> jsstring" where
  "replaceCR s = map (\<lambda>c. if c = CR then LF else c) s"

text \<open>
  The regular expressions of the stripper are sequences of single-character items: a
  character class, an optional class (\<^verbatim>\<open>?\<close>) and a starred class (\<^verbatim>\<open>*\<close>).
  \<open>rxMatch\<close> is the backtracking matcher of ECMAScript for such a sequence, anchored at
  the head of the input: \<^verbatim>\<open>?\<close> and \<^verbatim>\<open>*\<close> are greedy and give back
  characters when the rest of the pattern fails. It returns the length of the match.
\<close>

datatype rx = One "cu \<Rightarrow> bool" | Opt "cu \<Rightarrow> bool" | Star "cu \<Rightarrow> bool"

fun rxMatch :: "rx list \<Rightarrow> jsstring \<Rightarrow> nat option" where
  "rxMatch [] s = Some 0"
| "rxMatch (One p # r) [] = None"
| "rxMatch (One p # r) (c # cs) = (if p c then map_option Suc (rxMatch r cs) else None)"
| "rxMatch (Opt p # r) [] = rxMatch r []"
| "rxMatch (Opt p # r) (c # cs) =
     (if p c
      then (case rxMatch r cs of Some n \<Rightarrow> Some (Suc n) | None \<Rightarrow> rxMatch r (c # cs))
      else rxMatch r (c # cs))"
| "rxMatch (Star p # r) [] = rxMatch r []"
| "rxMatch (Star p # r) (c # cs) =
     (if p c
      then (case rxMatch (Star p # r) cs of Some n \<Rightarrow> Some (Suc n) | None \<Rightarrow> rxMatch r (c # cs))
      else rxMatch r (c # cs))"

text \<open>
  Under the \<^verbatim>\<open>m\<close> flag \<^verbatim>\<open>^\<close> matches at the start of the input and after a
  LineTerminator. \<open>rxSearch\<close> is \<^verbatim>\<open>String.prototype.match\<close> for a pattern that
  starts with \<^verbatim>\<open>^\<close> and has no \<^verbatim>\<open>g\<close> flag: the leftmost position where the
  pattern matches, as (\<^verbatim>\<open>m.index\<close>, \<^verbatim>\<open>m[0].length\<close>).
\<close>

definition isLineTerminator :: "cu \<Rightarrow> bool" where
  "isLineTerminator c \<longleftrightarrow> c = 0x0A \<or> c = 0x0D \<or> c = 0x2028 \<or> c = 0x2029"

fun rxSearch :: "rx list \<Rightarrow> bool \<Rightarrow> nat \<Rightarrow> jsstring \<Rightarrow> (nat \<times> nat) option" where
  "rxSearch pat atLineStart i [] =
     (case (if atLineStart then rxMatch pat [] else None) of
        Some n \<Rightarrow> Some (i, n)
      | None \<Rightarrow> None)"
| "rxSearch pat atLineStart i (c # cs) =
     (case (if atLineStart then rxMatch pat (c # cs) else None) of
        Some n \<Rightarrow> Some (i, n)
      | None \<Rightarrow> rxSearch pat (isLineTerminator c) (Suc i) cs)"

text \<open>
  The pattern \<^verbatim>\<open>/^[ \t]*"?OBSERVATIONS"?[ \t]*\n/im\<close>. Under the \<^verbatim>\<open>i\<close> flag
  (without \<^verbatim>\<open>u\<close>) a character matches an ASCII letter of the pattern when its
  canonical form, its upper case, is that letter; a character from U+0080 on never
  canonicalizes into ASCII, so only the two ASCII cases of the letter match.
\<close>

definition isBlank :: "cu \<Rightarrow> bool" where
  "isBlank c \<longleftrightarrow> c = 0x20 \<or> c = 0x09"

definition isQuote :: "cu \<Rightarrow> bool" where
  "isQuote c \<longleftrightarrow> c = 0x22"

definition asciiUpper :: "cu \<Rightarrow> cu" where
  "asciiUpper c = (if 0x61 \<le> c \<and> c \<le> 0x7A then c - 0x20 else c)"

definition marker :: jsstring where
  "marker = js ''OBSERVATIONS''"

definition obsPattern :: "rx list" where
  "obsPattern =
     [Star isBlank, Opt isQuote] @ map (\<lambda>p. One (\<lambda>c. asciiUpper c = p)) marker @
     [Opt isQuote, Star isBlank, One (\<lambda>c. c = LF)]"

definition extractObservationsCSV :: "jsstring \<Rightarrow> jsstring option" where
  "extractObservationsCSV fullText =
     (let text = replaceCR (replaceCRLF fullText) in
      case rxSearch obsPattern True 0 text of
        None \<Rightarrow> None
      | Some (index, len) \<Rightarrow>
          (let start = index + len;
               tail = trimStart (drop start text)
           in if LF \<notin> set tail then None else Some tail))"

text \<open>
  Both ingestion paths use the stripped block when the stripper returns one and the
  text as read otherwise (\<^verbatim>\<open>if (obs) raw = obs\<close>). A returned block holds a newline,
  so it is never the empty string and the truthiness test is a test for \<^verbatim>\<open>null\<close>.
\<close>

definition payloadOf :: "jsstring \<Rightarrow> jsstring" where
  "payloadOf fullText =
     (case extractObservationsCSV fullText of None \<Rightarrow> fullText | Some obs \<Rightarrow> obs)"

subsection \<open>The stripper as the specification words it\<close>

text \<open>
  The lines of a text, each with the line terminator that ends it and the text that
  follows the terminator; the last line has neither.
\<close>

fun linesFrom :: "jsstring \<Rightarrow> jsstring \<Rightarrow> (jsstring \<times> (cu \<times> jsstring) option) list" where
  "linesFrom acc [] = [(rev acc, None)]"
| "linesFrom acc (c # cs) =
     (if isLineTerminator c then (rev acc, Some (c, cs)) # linesFrom [] cs
      else linesFrom (c # acc) cs)"

definition jsLines :: "jsstring \<Rightarrow> (jsstring \<times> (cu \<times> jsstring) option) list" where
  "jsLines text = linesFrom [] text"

text \<open>
  A marker line: after trimming blanks and tabs and removing an optional quote at either
  end, the line is \<^verbatim>\<open>OBSERVATIONS\<close> in any case.
\<close>

definition trimBlanks :: "jsstring \<Rightarrow> jsstring" where
  "trimBlanks s = rev (dropWhile isBlank (rev (dropWhile isBlank s)))"

definition dropQuote :: "jsstring \<Rightarrow> jsstring" where
  "dropQuote s = (case s of [] \<Rightarrow> [] | c # cs \<Rightarrow> if isQuote c then cs else s)"

definition unquote :: "jsstring \<Rightarrow> jsstring" where
  "unquote s = rev (dropQuote (rev (dropQuote s)))"

definition isMarkerLine :: "jsstring \<Rightarrow> bool" where
  "isMarkerLine l \<longleftrightarrow> map asciiUpper (unquote (trimBlanks l)) = marker"

text \<open>
  Specification 4.2 read literally: the first marker line is located; without one the
  result is the sentinel, with one it is everything after that line with leading white
  space trimmed.
\<close>

definition specStrip :: "jsstring \<Rightarrow> jsstring option" where
  "specStrip fullText =
     (case find (\<lambda>(l, t). isMarkerLine l) (jsLines (replaceCR (replaceCRLF fullText))) of
        None \<Rightarrow> None
      | Some (l, None) \<Rightarrow> Some []
      | Some (l, Some (t, rest)) \<Rightarrow> Some (trimStart rest))"

text \<open>A marker line that a newline ends, and the first such line of a text.\<close>

definition endedMarker :: "jsstring \<times> (cu \<times> jsstring) option \<Rightarrow> bool" where
  "endedMarker ln = (case ln of (l, None) \<Rightarrow> False | (l, Some (t, rest)) \<Rightarrow> isMarkerLine l \<and> t = LF)"

definition afterFirstEndedMarker :: "jsstring \<Rightarrow> jsstring option" where
  "afterFirstEndedMarker text =
     (case find endedMarker (jsLines text) of
        Some (l, Some (t, rest)) \<Rightarrow> Some rest
      | _ \<Rightarrow> None)"

subsection \<open>Auxiliary notions for the proofs about the stripper\<close>

text \<open>The strings a pattern denotes, without reference to the order of backtracking.\<close>

inductive matches :: "rx list \<Rightarrow> jsstring \<Rightarrow> bool" where
  m_nil: "matches [] []"
| m_one: "p c \<Longrightarrow> matches r u \<Longrightarrow> matches (One p # r) (c # u)"
| m_opt_skip: "matches r u \<Longrightarrow> matches (Opt p # r) u"
| m_opt_take: "p c \<Longrightarrow> matches r u \<Longrightarrow> matches (Opt p # r) (c # u)"
| m_star_skip: "matches r u \<Longrightarrow> matches (Star p # r) u"
| m_star_take: "p c \<Longrightarrow> matches (Star p # r) u \<Longrightarrow> matches (Star p # r) (c # u)"

text \<open>The shape of a marker line, part by part.\<close>

definition markerShape :: "jsstring \<Rightarrow> bool" where
  "markerShape l \<longleftrightarrow>
     (\<exists>b1 q1 w q2 b2. l = b1 @ q1 @ w @ q2 @ b2 \<and> (\<forall>c \<in> set b1. isBlank c) \<and>
        (q1 = [] \<or> q1 = [0x22]) \<and> map asciiUpper w = marker \<and>
        (q2 = [] \<or> q2 = [0x22]) \<and> (\<forall>c \<in> set b2. isBlank c))"

text \<open>The text after the match of the pattern, as the code computes it.\<close>

definition codeAfter :: "jsstring \<Rightarrow> jsstring option" where
  "codeAfter s = map_option (\<lambda>(j, n). drop (j + n) s) (rxSearch obsPattern True 0 s)"

section \<open>Rows as JavaScript objects\<close>

text \<open>
  A property value of a row object: a string of the CSV, or a member that the object
  inherits from \<^verbatim>\<open>Object.prototype\<close> (named by its property name).
\<close>

datatype jsval = Str jsstring | Inherited jsstring

text \<open>
  An object created by the literal \<^verbatim>\<open>{}\<close>: its own enumerable properties in
  creation order (an assignment to a property that exists keeps its place). Its
  prototype is \<^verbatim>\<open>Object.prototype\<close>, whose members answer a property read when the
  object has no own property of that name.
\<close>

type_synonym jsobject = "(jsstring \<times> jsval) list"

definition objectPrototypeNames :: "jsstring list" where
  "objectPrototypeNames = map js
     [''constructor'', ''__defineGetter__'', ''__defineSetter__'', ''hasOwnProperty'',
      ''__lookupGetter__'', ''__lookupSetter__'', ''isPrototypeOf'',
      ''propertyIsEnumerable'', ''toString'', ''valueOf'', ''__proto__'',
      ''toLocaleString'']"

text \<open>\<^verbatim>\<open>obj[k]\<close>; \<open>None\<close> is \<^verbatim>\<open>undefined\<close>.\<close>

definition getProp :: "jsobject \<Rightarrow> jsstring \<Rightarrow> jsval option" where
  "getProp obj k =
     (case map_of obj k of
        Some v \<Rightarrow> Some v
      | None \<Rightarrow> if k \<in> set objectPrototypeNames then Some (Inherited k) else None)"

text \<open>
  \<^verbatim>\<open>obj[k] = v\<close>. The name \<^verbatim>\<open>__proto__\<close> is an accessor of the prototype: its
  setter ignores a value that is not an object, and the code never assigns an object
  under it (a read of \<^verbatim>\<open>__proto__\<close> is never \<^verbatim>\<open>undefined\<close>).
\<close>

definition setProp :: "jsobject \<Rightarrow> jsstring \<Rightarrow> jsval \<Rightarrow> jsobject" where
  "setProp obj k v = (if k = js ''__proto__'' then obj else AList.update k v obj)"

text \<open>\<^verbatim>\<open>delete obj[k]\<close>\<close>

definition deleteProp :: "jsobject \<Rightarrow> jsstring \<Rightarrow> jsobject" where
  "deleteProp obj k = AList.delete k obj"

text \<open>
  The order in which JavaScript lists the own properties of an object: first the names
  that are array indices (a decimal numeral without leading zero, below \<open>2\<^sup>3\<^sup>2 - 1\<close>), in
  ascending numeric order, then the other names in creation order.
\<close>

definition isDigit :: "cu \<Rightarrow> bool" where
  "isDigit c \<longleftrightarrow> 0x30 \<le> c \<and> c \<le> 0x39"

definition decimal :: "jsstring \<Rightarrow> nat" where
  "decimal k = foldl (\<lambda>n c. 10 * n + (unat c - 48)) 0 k"

definition arrayIndex :: "jsstring \<Rightarrow> nat option" where
  "arrayIndex k =
     (if k \<noteq> [] \<and> list_all isDigit k \<and> (hd k \<noteq> 0x30 \<or> length k = 1) \<and>
         decimal k < 4294967295
      then Some (decimal k) else None)"

definition indexOf :: "jsstring \<times> jsval \<Rightarrow> nat" where
  "indexOf kv = (case arrayIndex (fst kv) of None \<Rightarrow> 0 | Some n \<Rightarrow> n)"

definition ownEntries :: "jsobject \<Rightarrow> (jsstring \<times> jsval) list" where
  "ownEntries obj =
     sort_key indexOf (filter (\<lambda>kv. arrayIndex (fst kv) \<noteq> None) obj) @
     filter (\<lambda>kv. arrayIndex (fst kv) = None) obj"

text \<open>\<^verbatim>\<open>Object.keys(obj)\<close> and \<^verbatim>\<open>Object.values(obj)\<close>\<close>

definition objectKeys :: "jsobject \<Rightarrow> jsstring list" where
  "objectKeys obj = map fst (ownEntries obj)"

definition objectValues :: "jsobject \<Rightarrow> jsval list" where
  "objectValues obj = map snd (ownEntries obj)"

text \<open>
  A row as the CSV parser emits it: \<^verbatim>\<open>Object.entries(row)\<close> in the order in which
  JavaScript lists them, a value being a string, or \<open>None\<close> for \<^verbatim>\<open>null\<close> and
  \<^verbatim>\<open>undefined\<close>.
\<close>

type_synonym csvrow = "(jsstring \<times> jsstring option) list"

text \<open>
  The reducer of the \<^verbatim>\<open>data\<close> handler: a field is kept, under its sanitized name
  and with its value as parsed, when the value is not blank after trimming.
\<close>

definition addField :: "jsobject \<Rightarrow> jsstring \<times> jsstring option \<Rightarrow> jsobject" where
  "addField acc kv =
     (case kv of (key, value) \<Rightarrow>
        (let v = (case value of None \<Rightarrow> [] | Some s \<Rightarrow> s)
         in if trim v \<noteq> [] then setProp acc (sanitizeName key) (Str v) else acc))"

definition rawEntriesOf :: "csvrow \<Rightarrow> jsobject" where
  "rawEntriesOf row = foldl addField [] row"

section \<open>The relational store\<close>

text \<open>
  The SQLite connection as the ingester uses it. The statements of \<^verbatim>\<open>pull.js\<close>:
  \<^verbatim>\<open>CREATE TABLE IF NOT EXISTS\<close>, \<^verbatim>\<open>PRAGMA table_info\<close>,
  \<^verbatim>\<open>ALTER TABLE ... ADD COLUMN\<close>, \<^verbatim>\<open>BEGIN IMMEDIATE\<close>, \<^verbatim>\<open>DELETE FROM\<close>,
  \<^verbatim>\<open>ROLLBACK\<close>, \<^verbatim>\<open>COMMIT\<close> and \<^verbatim>\<open>INSERT INTO\<close> with its keys and bound
  values.
\<close>

datatype stmt =
    CreateTable jsstring "jsstring list"
  | TableInfo jsstring
  | AddColumn jsstring jsstring
  | Begin
  | DeleteFrom jsstring
  | Rollback
  | Commit
  | InsertInto jsstring "jsstring list" "jsval list"

text \<open>
  The lines written by \<^verbatim>\<open>console.log\<close> and \<^verbatim>\<open>console.error\<close>, in one
  sequence, each with the values it interpolates.
\<close>

datatype logline =
    LogSchemaChange jsstring jsstring
  | LogOverwriteCleared jsstring
  | LogRemapNotice jsstring jsstring jsstring
  | LogRemapTotal jsstring jsstring nat
  | LogExecutingSQL stmt
  | LogInsertFailed jsstring
  | LogIngestDone jsstring
  | LogInsertedDone jsstring
  | LogDetectedIngest
  | LogDetectedBoC
  | LogFetching nat jsstring
  | LogFetchFailed jsstring
  | LogNoHeaders jsstring
  | LogParseError jsstring
  | LogErrorProcessing jsstring
  | LogLocalNotFound jsstring jsstring
  | LogUsingLocal jsstring jsstring

text \<open>
  A relation: its columns as they were declared, and its rows, in the order of creation.
  A row holds the columns that have a value; a column without one is \<^verbatim>\<open>NULL\<close>.
\<close>

record table =
  columns :: "jsstring list"
  rows :: "jsobject list"

text \<open>
  An \<^verbatim>\<open>INSERT\<close> that the \<^verbatim>\<open>data\<close> handler has passed to \<^verbatim>\<open>db.run\<close> without
  waiting for it: the relation, the keys and the bound values.
\<close>

type_synonym insertion = "jsstring \<times> jsstring list \<times> jsval list"

text \<open>
  The state of a run.
  \<^item> \<open>tables\<close>: the relations of the store, each filed under its name in upper case.
  \<^item> \<open>savepoint\<close>: while a transaction is open, the relations to return to on
    \<^verbatim>\<open>ROLLBACK\<close>.
  \<^item> \<open>issued\<close>: the statements that have reached the store, in the order in which they
    ran, each with whether it succeeded.
  \<^item> \<open>pending\<close>: the inserts in flight, in the order in which the handler passed them
    to \<^verbatim>\<open>db.run\<close>. The connection is not in serialized mode, so the order in which
    they run, among themselves and with respect to the statements that the program
    waits for, is not the program's choice.
  \<^item> \<open>schedule\<close>: that choice. Each time the program waits, the head of the list is
    taken off: it names, by their positions among the inserts in flight, those that run
    during the wait, in this order. When the list is used up, every insert in flight
    runs at the next wait, in the order of \<open>pending\<close>; so the empty schedule is the run
    in which every statement takes effect in program order.
  \<^item> \<open>console\<close>: the lines logged so far.
\<close>

record world =
  tables :: "(jsstring \<times> table) list"
  savepoint :: "(jsstring \<times> table) list option"
  issued :: "(stmt \<times> bool) list"
  pending :: "insertion list"
  schedule :: "nat list list"
  console :: "logline list"

text \<open>
  SQLite compares the names of relations and columns without regard to the case of the
  letters \<^verbatim>\<open>A\<close> to \<^verbatim>\<open>Z\<close>, and keeps the names that begin with
  \<^verbatim>\<open>sqlite_\<close> to itself.
\<close>

definition sqlName :: "jsstring \<Rightarrow> jsstring" where
  "sqlName n = map asciiUpper n"

definition reservedName :: "jsstring \<Rightarrow> bool" where
  "reservedName n \<longleftrightarrow> take 7 (sqlName n) = js ''SQLITE_''"

text \<open>
  The row that an insert writes: each column named by a key (by the first such key)
  gets the value bound to that key.
\<close>

definition storedRow :: "jsstring list \<Rightarrow> jsstring list \<Rightarrow> jsval list \<Rightarrow> jsobject" where
  "storedRow cols keys vals =
     List.map_filter
       (\<lambda>c. map_option (Pair c) (map_of (zip (map sqlName keys) vals) (sqlName c))) cols"

text \<open>
  What a statement does to the store, and \<open>None\<close> when the store refuses it: a relation
  created under a reserved name, with no column or with a column twice; a column added
  twice or to no relation; a transaction begun inside another; a commit or rollback
  outside one; a delete from or an insert into no relation; an insert with no key or
  with a key that is not a column (the CSV parser names a cell without header
  \<^verbatim>\<open>_3\<close>, \<^verbatim>\<open>_4\<close>, ..., so such a key is never \<^verbatim>\<open>rowid\<close>).
  \<^verbatim>\<open>CREATE TABLE IF NOT EXISTS\<close> leaves an existing relation as it is, whatever the
  columns it lists.
\<close>

definition effect :: "stmt \<Rightarrow> world \<Rightarrow> world option" where
  "effect s w =
     (case s of
        CreateTable t cols \<Rightarrow>
          if cols = [] \<or> reservedName t then None
          else (case map_of (tables w) (sqlName t) of
                  Some tb \<Rightarrow> Some w
                | None \<Rightarrow>
                    if \<not> distinct (map sqlName cols) then None
                    else Some (w\<lparr>tables := tables w @
                                 [(sqlName t, \<lparr>columns = cols, rows = []\<rparr>)]\<rparr>))
      | TableInfo t \<Rightarrow> Some w
      | AddColumn t c \<Rightarrow>
          (case map_of (tables w) (sqlName t) of
             None \<Rightarrow> None
           | Some tb \<Rightarrow>
               if sqlName c \<in> set (map sqlName (columns tb)) then None
               else Some (w\<lparr>tables :=
                            AList.update (sqlName t) (tb\<lparr>columns := columns tb @ [c]\<rparr>) (tables w)\<rparr>))
      | Begin \<Rightarrow>
          (case savepoint w of
             Some old \<Rightarrow> None
           | None \<Rightarrow> Some (w\<lparr>savepoint := Some (tables w)\<rparr>))
      | DeleteFrom t \<Rightarrow>
          (case map_of (tables w) (sqlName t) of
             None \<Rightarrow> None
           | Some tb \<Rightarrow>
               Some (w\<lparr>tables := AList.update (sqlName t) (tb\<lparr>rows := []\<rparr>) (tables w)\<rparr>))
      | Rollback \<Rightarrow>
          (case savepoint w of
             None \<Rightarrow> None
           | Some old \<Rightarrow> Some (w\<lparr>tables := old, savepoint := None\<rparr>))
      | Commit \<Rightarrow>
          (case savepoint w of
             None \<Rightarrow> None
           | Some old \<Rightarrow> Some (w\<lparr>savepoint := None\<rparr>))
      | InsertInto t keys vals \<Rightarrow>
          (case map_of (tables w) (sqlName t) of
             None \<Rightarrow> None
           | Some tb \<Rightarrow>
               if keys = [] \<or> \<not> set (map sqlName keys) \<subseteq> set (map sqlName (columns tb))
               then None
               else Some (w\<lparr>tables :=
                            AList.update (sqlName t)
                              (tb\<lparr>rows := rows tb @ [storedRow (columns tb) keys vals]\<rparr>)
                              (tables w)\<rparr>)))"

text \<open>
  A statement reaches the store. \<open>faults n\<close> says that the statement that runs in
  position \<open>n\<close> fails for a reason of its own (a lock, a full disk, a limit of SQLite).
  A statement that fails changes nothing.
\<close>

definition dbRun :: "(nat \<Rightarrow> bool) \<Rightarrow> stmt \<Rightarrow> world \<Rightarrow> bool \<times> world" where
  "dbRun faults s w =
     (case (if faults (length (issued w)) then None else effect s w) of
        None \<Rightarrow> (False, w\<lparr>issued := issued w @ [(s, False)]\<rparr>)
      | Some w' \<Rightarrow> (True, w'\<lparr>issued := issued w @ [(s, True)]\<rparr>))"

text \<open>
  The insert in flight at position \<open>i\<close> runs, and its callback with it: on failure the
  callback logs the statement and the error, on success it does nothing.
\<close>

definition complete :: "(nat \<Rightarrow> bool) \<Rightarrow> world \<Rightarrow> nat \<Rightarrow> world" where
  "complete faults w i =
     (if i < length (pending w)
      then (case pending w ! i of
              (t, keys, vals) \<Rightarrow>
                (case dbRun faults (InsertInto t keys vals)
                        (w\<lparr>pending := take i (pending w) @ drop (Suc i) (pending w)\<rparr>) of
                   (True, w1) \<Rightarrow> w1
                 | (False, w1) \<Rightarrow>
                     w1\<lparr>console := console w1 @
                       [LogExecutingSQL (InsertInto t keys vals), LogInsertFailed t]\<rparr>))
      else w)"

definition completeAll :: "(nat \<Rightarrow> bool) \<Rightarrow> world \<Rightarrow> world" where
  "completeAll faults w = foldl (complete faults) w (replicate (length (pending w)) 0)"

text \<open>
  The program waits (for a statement, for the network, for the next event of the
  stream): the inserts in flight that the schedule names run meanwhile.
\<close>

definition loopTurn :: "(nat \<Rightarrow> bool) \<Rightarrow> world \<Rightarrow> world" where
  "loopTurn faults w =
     (case schedule w of
        [] \<Rightarrow> completeAll faults w
      | picks # later \<Rightarrow> foldl (complete faults) (w\<lparr>schedule := later\<rparr>) picks)"

text \<open>
  A statement that the program waits for, through \<^verbatim>\<open>db.run\<close> or \<^verbatim>\<open>db.all\<close> in a
  promise: it runs after the inserts in flight that the schedule lets run before it.
\<close>

definition awaitRun :: "(nat \<Rightarrow> bool) \<Rightarrow> stmt \<Rightarrow> world \<Rightarrow> bool \<times> world" where
  "awaitRun faults s w = dbRun faults s (loopTurn faults w)"

text \<open>\<^verbatim>\<open>execSQL\<close>: the promise resolves (\<open>True\<close>) or rejects (\<open>False\<close>).\<close>

definition execSQL :: "(nat \<Rightarrow> bool) \<Rightarrow> stmt \<Rightarrow> world \<Rightarrow> bool \<times> world" where
  "execSQL faults sql w = awaitRun faults sql w"

text \<open>The columns and the rows of a relation; none when the relation does not exist.\<close>

definition columnsOf :: "world \<Rightarrow> jsstring \<Rightarrow> jsstring list" where
  "columnsOf w t = (case map_of (tables w) (sqlName t) of None \<Rightarrow> [] | Some tb \<Rightarrow> columns tb)"

definition rowsOf :: "world \<Rightarrow> jsstring \<Rightarrow> jsobject list" where
  "rowsOf w t = (case map_of (tables w) (sqlName t) of None \<Rightarrow> [] | Some tb \<Rightarrow> rows tb)"

text \<open>A \<^verbatim>\<open>Set\<close> as the list of its members in insertion order.\<close>

definition setAdd :: "'a list \<Rightarrow> 'a \<Rightarrow> 'a list" where
  "setAdd xs x = (if x \<in> set xs then xs else xs @ [x])"

definition newSet :: "'a list \<Rightarrow> 'a list" where
  "newSet xs = foldl setAdd [] xs"

text \<open>What a promise rejects with.\<close>

datatype error = SqlError stmt | NoHeadersFound | StreamFailure | ReadFailure

section \<open>SchemaSynchronizer\<close>

definition getExistingColumns ::
  "(nat \<Rightarrow> bool) \<Rightarrow> jsstring \<Rightarrow> world \<Rightarrow> (error + jsstring list) \<times> world" where
  "getExistingColumns faults sanitizedTableName w =
     (case awaitRun faults (TableInfo sanitizedTableName) w of
        (False, w1) \<Rightarrow> (Inl (SqlError (TableInfo sanitizedTableName)), w1)
      | (True, w1) \<Rightarrow> (Inr (newSet (columnsOf w1 sanitizedTableName)), w1))"

text \<open>The loop of \<^verbatim>\<open>ensureTableSchema\<close> over the incoming columns.\<close>

fun addMissing ::
  "(nat \<Rightarrow> bool) \<Rightarrow> jsstring \<Rightarrow> jsstring list \<Rightarrow> jsstring list \<Rightarrow> world \<Rightarrow>
     (error + jsstring list) \<times> world" where
  "addMissing faults t [] existingCols w = (Inr existingCols, w)"
| "addMissing faults t (col # cols) existingCols w =
     (if col \<notin> set existingCols
      then (case awaitRun faults (AddColumn t col)
                   (w\<lparr>console := console w @ [LogSchemaChange col t]\<rparr>) of
              (False, w1) \<Rightarrow> (Inl (SqlError (AddColumn t col)), w1)
            | (True, w1) \<Rightarrow> addMissing faults t cols (setAdd existingCols col) w1)
      else addMissing faults t cols existingCols w)"

definition ensureTableSchema ::
  "(nat \<Rightarrow> bool) \<Rightarrow> jsstring \<Rightarrow> jsstring list \<Rightarrow> world \<Rightarrow> (error + jsstring list) \<times> world" where
  "ensureTableSchema faults sanitizedTableName incomingHeaders w =
     (let sanitizedIncoming = map sanitizeName incomingHeaders in
      case awaitRun faults (CreateTable sanitizedTableName sanitizedIncoming) w of
        (False, w1) \<Rightarrow> (Inl (SqlError (CreateTable sanitizedTableName sanitizedIncoming)), w1)
      | (True, w1) \<Rightarrow>
          (case getExistingColumns faults sanitizedTableName w1 of
             (Inl e, w2) \<Rightarrow> (Inl e, w2)
           | (Inr existingCols, w2) \<Rightarrow>
               addMissing faults sanitizedTableName sanitizedIncoming existingCols w2))"

section \<open>ColumnRemapper\<close>

text \<open>
  What the handlers of one dataset share: \<^verbatim>\<open>remapLoggedOnce\<close> (a
  \<^verbatim>\<open>Set\<close>) and \<^verbatim>\<open>remapCounts\<close> (an object without prototype, keyed by
  \<^verbatim>\<open>remapKey\<close>).
\<close>

record remap =
  remapLoggedOnce :: "jsstring list"
  remapCounts :: "(jsstring \<times> nat) list"

definition remapKey :: "jsstring \<Rightarrow> jsstring \<Rightarrow> jsstring" where
  "remapKey a b = a @ js ''>'' @ b"

text \<open>
  One turn of the loop over \<^verbatim>\<open>Object.entries(automigrations)\<close>, on the row being
  built, the remap bookkeeping and the console.
\<close>

definition applyRule ::
  "jsstring \<Rightarrow> jsstring list \<Rightarrow> jsobject \<times> remap \<times> logline list \<Rightarrow> jsstring \<times> jsstring \<Rightarrow>
     jsobject \<times> remap \<times> logline list" where
  "applyRule sanitizedTableName existingCols st rule =
     (case st of (rawEntries, rm, out) \<Rightarrow>
      case rule of (incoming, target) \<Rightarrow>
        (let inKey = sanitizeName incoming;
             tgtKey = sanitizeName target
         in case getProp rawEntries inKey of
              None \<Rightarrow> st
            | Some v \<Rightarrow>
                if tgtKey \<in> set existingCols
                then (let k = remapKey inKey tgtKey;
                          counts = AList.update k
                            ((case map_of (remapCounts rm) k of None \<Rightarrow> 0 | Some c \<Rightarrow> c) + 1)
                            (remapCounts rm);
                          first = (k \<notin> set (remapLoggedOnce rm));
                          out1 = (if first
                                  then out @ [LogRemapNotice sanitizedTableName inKey tgtKey]
                                  else out);
                          logged = (if first then setAdd (remapLoggedOnce rm) k
                                    else remapLoggedOnce rm);
                          copied = (if getProp rawEntries tgtKey = None
                                    then setProp rawEntries tgtKey v else rawEntries)
                      in (deleteProp copied inKey,
                          \<lparr>remapLoggedOnce = logged, remapCounts = counts\<rparr>, out1))
                else st))"

definition applyRules ::
  "jsstring \<Rightarrow> jsstring list \<Rightarrow> (jsstring \<times> jsstring) list \<Rightarrow>
     jsobject \<times> remap \<times> logline list \<Rightarrow> jsobject \<times> remap \<times> logline list" where
  "applyRules sanitizedTableName existingCols automigrations st =
     foldl (applyRule sanitizedTableName existingCols) st automigrations"

section \<open>RowLoader\<close>

text \<open>The constants of the script.\<close>

definition overWriteMode :: bool where
  "overWriteMode = True"

definition keepCsv :: bool where
  "keepCsv = True"

text \<open>
  The \<^verbatim>\<open>data\<close> handler, the same in both ingestion paths. It passes the insert to
  \<^verbatim>\<open>db.run\<close> and returns without waiting for it: the insert is in flight.
\<close>

definition dataHandler ::
  "(jsstring \<times> jsstring) list \<Rightarrow> jsstring \<Rightarrow> jsstring list \<Rightarrow> remap \<times> world \<Rightarrow> csvrow \<Rightarrow>
     remap \<times> world" where
  "dataHandler automigrations sanitizedTableName existingCols st row =
     (case st of (rm, w) \<Rightarrow>
      case applyRules sanitizedTableName existingCols automigrations
             (rawEntriesOf row, rm, console w) of
        (rawEntries, rm1, out) \<Rightarrow>
          (let w1 = w\<lparr>console := out\<rparr> in
           if length (objectKeys rawEntries) = 0 then (rm1, w1)
           else (let keys = objectKeys rawEntries
                 in (rm1, w1\<lparr>pending := pending w1 @
                            [(sanitizedTableName, keys, objectValues rawEntries)]\<rparr>))))"

text \<open>A \<^verbatim>\<open>data\<close> event: the program has waited for it, then the handler runs.\<close>

definition onData ::
  "(nat \<Rightarrow> bool) \<Rightarrow> (jsstring \<times> jsstring) list \<Rightarrow> jsstring \<Rightarrow> jsstring list \<Rightarrow>
     remap \<times> world \<Rightarrow> csvrow \<Rightarrow> remap \<times> world" where
  "onData faults automigrations sanitizedTableName existingCols st row =
     (case st of (rm, w) \<Rightarrow>
        dataHandler automigrations sanitizedTableName existingCols (rm, loopTurn faults w) row)"

text \<open>
  The overwrite block: \<^verbatim>\<open>BEGIN IMMEDIATE\<close>, then \<^verbatim>\<open>DELETE\<close>, and
  \<^verbatim>\<open>ROLLBACK\<close> before rethrowing when the delete fails.
\<close>

definition clearTable :: "(nat \<Rightarrow> bool) \<Rightarrow> jsstring \<Rightarrow> world \<Rightarrow> (error + unit) \<times> world" where
  "clearTable faults sanitizedTableName w =
     (case execSQL faults Begin w of
        (False, w1) \<Rightarrow> (Inl (SqlError Begin), w1)
      | (True, w1) \<Rightarrow>
          (case execSQL faults (DeleteFrom sanitizedTableName) w1 of
             (True, w2) \<Rightarrow>
               (Inr (), w2\<lparr>console := console w2 @ [LogOverwriteCleared sanitizedTableName]\<rparr>)
           | (False, w2) \<Rightarrow>
               (case execSQL faults Rollback w2 of
                  (False, w3) \<Rightarrow> (Inl (SqlError Rollback), w3)
                | (True, w3) \<Rightarrow> (Inl (SqlError (DeleteFrom sanitizedTableName)), w3))))"

text \<open>
  How the promise of one dataset ends. \<open>Pending\<close>: it never settles, so the
  \<^verbatim>\<open>await\<close> of the main loop never returns.
\<close>

datatype settled = Resolved | Rejected error | Pending

text \<open>
  The events of the parser stream for one text: at most one \<^verbatim>\<open>headers\<close> event, then
  \<^verbatim>\<open>data\<close> events, then \<^verbatim>\<open>end\<close> or \<^verbatim>\<open>error\<close>.
\<close>

datatype stream_end = End | StreamError

datatype parsed =
    NoHeaderEvent stream_end
  | HeaderEvent "jsstring list" "csvrow list" stream_end

text \<open>The bookkeeping of the remapper when the handlers are attached.\<close>

definition newRemap :: remap where
  "newRemap = \<lparr>remapLoggedOnce = [], remapCounts = []\<rparr>"

text \<open>
  The \<^verbatim>\<open>end\<close> handler of \<^verbatim>\<open>ingestLocalCsv\<close>. A failing \<^verbatim>\<open>COMMIT\<close> throws
  inside the asynchronous handler, where nothing catches it: the promise never settles.
\<close>

definition localEnd :: "(nat \<Rightarrow> bool) \<Rightarrow> jsstring \<Rightarrow> remap \<times> world \<Rightarrow> settled \<times> world" where
  "localEnd faults sanitizedTableName st =
     (case st of (rm, w) \<Rightarrow>
      case (if overWriteMode then execSQL faults Commit w else (True, w)) of
        (False, w1) \<Rightarrow> (Pending, w1)
      | (True, w1) \<Rightarrow>
          (Resolved, w1\<lparr>console := console w1 @
             map (\<lambda>(k, count). LogRemapTotal sanitizedTableName k count) (remapCounts rm) @
             [LogIngestDone sanitizedTableName]\<rparr>))"

text \<open>The \<^verbatim>\<open>end\<close> handler of \<^verbatim>\<open>downloadCsvToSqlite\<close>.\<close>

definition remoteEnd :: "(nat \<Rightarrow> bool) \<Rightarrow> jsstring \<Rightarrow> remap \<times> world \<Rightarrow> settled \<times> world" where
  "remoteEnd faults sanitizedTableName st =
     (case st of (rm, w) \<Rightarrow>
      case (if overWriteMode then execSQL faults Commit w else (True, w)) of
        (False, w1) \<Rightarrow> (Pending, w1)
      | (True, w1) \<Rightarrow>
          (Resolved, w1\<lparr>console := console w1 @ [LogInsertedDone sanitizedTableName]\<rparr>))"

text \<open>
  The promise of \<^verbatim>\<open>ingestLocalCsv\<close> over the events of the stream. The
  \<^verbatim>\<open>data\<close> and \<^verbatim>\<open>end\<close> handlers are attached only when the
  \<^verbatim>\<open>headers\<close> handler gets through schema synchronization and the overwrite block;
  the rows are delivered from then on. The program waits for the first event, for each
  row and for the end of the stream.
\<close>

definition localStream ::
  "(nat \<Rightarrow> bool) \<Rightarrow> (jsstring \<times> jsstring) list \<Rightarrow> jsstring \<Rightarrow> parsed \<Rightarrow> world \<Rightarrow>
     settled \<times> world" where
  "localStream faults automigrations sanitizedTableName p w =
     (let w0 = loopTurn faults w in
      case p of
        NoHeaderEvent e \<Rightarrow>
          (case e of StreamError \<Rightarrow> (Rejected StreamFailure, w0) | End \<Rightarrow> (Pending, w0))
      | HeaderEvent headers rws e \<Rightarrow>
          if length headers = 0 then (Rejected NoHeadersFound, w0)
          else
            (case ensureTableSchema faults sanitizedTableName headers w0 of
               (Inl err, w1) \<Rightarrow> (Rejected err, w1)
             | (Inr existingCols, w1) \<Rightarrow>
                 (case (if overWriteMode then clearTable faults sanitizedTableName w1
                        else (Inr (), w1)) of
                    (Inl err, w2) \<Rightarrow> (Rejected err, w2)
                  | (Inr u, w2) \<Rightarrow>
                      (let st = foldl (onData faults automigrations sanitizedTableName
                                         existingCols) (newRemap, w2) rws
                       in case e of
                            StreamError \<Rightarrow> (Rejected StreamFailure, loopTurn faults (snd st))
                          | End \<Rightarrow> localEnd faults sanitizedTableName st))))"

text \<open>The \<^verbatim>\<open>error\<close> handler of \<^verbatim>\<open>downloadCsvToSqlite\<close> logs before it rejects.\<close>

definition remoteError :: "jsstring \<Rightarrow> stream_end \<Rightarrow> world \<Rightarrow> world" where
  "remoteError sanitizedTableName e w =
     (case e of
        StreamError \<Rightarrow> w\<lparr>console := console w @ [LogParseError sanitizedTableName]\<rparr>
      | End \<Rightarrow> w)"

definition remoteStream ::
  "(nat \<Rightarrow> bool) \<Rightarrow> (jsstring \<times> jsstring) list \<Rightarrow> jsstring \<Rightarrow> jsstring \<Rightarrow> parsed \<Rightarrow> world \<Rightarrow>
     settled \<times> world" where
  "remoteStream faults automigrations name sanitizedTableName p w =
     (let w0 = loopTurn faults w in
      case p of
        NoHeaderEvent e \<Rightarrow>
          (case e of
             StreamError \<Rightarrow> (Rejected StreamFailure, remoteError sanitizedTableName e w0)
           | End \<Rightarrow> (Pending, w0))
      | HeaderEvent headers rws e \<Rightarrow>
          if length headers = 0
          then (Rejected NoHeadersFound,
                remoteError sanitizedTableName e (w0\<lparr>console := console w0 @ [LogNoHeaders name]\<rparr>))
          else
            (case ensureTableSchema faults sanitizedTableName headers w0 of
               (Inl err, w1) \<Rightarrow> (Rejected err, remoteError sanitizedTableName e w1)
             | (Inr existingCols, w1) \<Rightarrow>
                 (case (if overWriteMode then clearTable faults sanitizedTableName w1
                        else (Inr (), w1)) of
                    (Inl err, w2) \<Rightarrow> (Rejected err, remoteError sanitizedTableName e w2)
                  | (Inr u, w2) \<Rightarrow>
                      (let st = foldl (onData faults automigrations sanitizedTableName
                                         existingCols) (newRemap, w2) rws
                       in case e of
                            StreamError \<Rightarrow>
                              (Rejected StreamFailure,
                               remoteError sanitizedTableName e (loopTurn faults (snd st)))
                          | End \<Rightarrow> remoteEnd faults sanitizedTableName st))))"

text \<open>
  \<^verbatim>\<open>db.close\<close> waits for the statements in flight: those that the schedule names run
  first, then the others.
\<close>

definition dbClose :: "(nat \<Rightarrow> bool) \<Rightarrow> world \<Rightarrow> world" where
  "dbClose faults w = completeAll faults (loopTurn faults w)"

section \<open>IngestionOrchestrator\<close>

text \<open>
  The collaborators of a run: which statements of the store fail (by their position in
  the sequence of statements that reach it), the CSV parser, the remap table
  \<^verbatim>\<open>table-migrations.json5\<close> as \<^verbatim>\<open>Object.entries\<close> lists it, the files that
  exist with their contents, and the answers to \<^verbatim>\<open>fetch\<close>.
\<close>

datatype response = NetworkError | Response bool nat jsstring

record env =
  faults :: "nat \<Rightarrow> bool"
  csvParser :: "jsstring \<Rightarrow> parsed"
  automigrations :: "(jsstring \<times> jsstring) list"
  readFile :: "jsstring \<Rightarrow> jsstring option"
  fetch :: "jsstring \<Rightarrow> response"

definition ingestLocalCsv :: "env \<Rightarrow> jsstring \<Rightarrow> jsstring \<Rightarrow> world \<Rightarrow> settled \<times> world" where
  "ingestLocalCsv env tableName csvPath w =
     (let sanitizedTableName = sanitizeTableName tableName in
      case readFile env csvPath of
        None \<Rightarrow> (Rejected ReadFailure, w)
      | Some raw \<Rightarrow>
          (let obs = extractObservationsCSV raw;
               w1 = (if obs \<noteq> None then w\<lparr>console := console w @ [LogDetectedIngest]\<rparr> else w)
           in localStream (faults env) (automigrations env) sanitizedTableName
                (csvParser env (payloadOf raw)) w1))"

definition downloadCsvToSqlite ::
  "env \<Rightarrow> jsstring \<Rightarrow> jsstring \<Rightarrow> nat \<Rightarrow> world \<Rightarrow> settled \<times> world" where
  "downloadCsvToSqlite env name url index w =
     (let sanitizedTableName = sanitizeTableName name;
          w0 = loopTurn (faults env) (w\<lparr>console := console w @ [LogFetching index name]\<rparr>)
      in case fetch env url of
           NetworkError \<Rightarrow> (Resolved, w0\<lparr>console := console w0 @ [LogFetchFailed name]\<rparr>)
         | Response ok status data \<Rightarrow>
             if \<not> ok then (Resolved, w0\<lparr>console := console w0 @ [LogFetchFailed name]\<rparr>)
             else
               (let obsOnly = extractObservationsCSV data;
                    w1 = (if obsOnly \<noteq> None
                          then w0\<lparr>console := console w0 @ [LogDetectedBoC]\<rparr> else w0)
                in remoteStream (faults env) (automigrations env) name sanitizedTableName
                     (csvParser env (payloadOf data)) w1))"

text \<open>\<^verbatim>\<open>s.includes('://')\<close>\<close>

fun jsIncludes :: "jsstring \<Rightarrow> jsstring \<Rightarrow> bool" where
  "jsIncludes [] needle = (needle = [])"
| "jsIncludes (c # cs) needle = (take (length needle) (c # cs) = needle \<or> jsIncludes cs needle)"

definition isRemoteUrl :: "jsstring \<Rightarrow> bool" where
  "isRemoteUrl s = jsIncludes s (js ''://'')"

text \<open>
  How the main loop ends: after the last dataset, when the connection is closed; or at
  a dataset whose promise rejects with nothing to catch it (the asynchronous main
  function rejects); or at a dataset whose promise never settles (nothing resumes the
  loop). In the last two cases the state is the one in which the loop stops, with what
  is in flight then.
\<close>

datatype run_end = Finished | HaltedAt nat error | StalledAt nat

fun mainLoop :: "env \<Rightarrow> (jsstring \<times> jsstring) list \<Rightarrow> nat \<Rightarrow> world \<Rightarrow> run_end \<times> world" where
  "mainLoop env [] index w = (Finished, dbClose (faults env) w)"
| "mainLoop env ((name, urlOrPath) # rest) index w =
     (if isRemoteUrl urlOrPath
      then (case downloadCsvToSqlite env name urlOrPath index w of
              (Resolved, w1) \<Rightarrow> mainLoop env rest (Suc index) w1
            | (Rejected err, w1) \<Rightarrow>
                mainLoop env rest (Suc index) (w1\<lparr>console := console w1 @ [LogErrorProcessing name]\<rparr>)
            | (Pending, w1) \<Rightarrow> (StalledAt index, w1))
      else if readFile env urlOrPath = None
      then mainLoop env rest (Suc index)
             (w\<lparr>console := console w @ [LogLocalNotFound urlOrPath name]\<rparr>)
      else (case ingestLocalCsv env name urlOrPath
                   (w\<lparr>console := console w @ [LogUsingLocal name urlOrPath]\<rparr>) of
              (Resolved, w1) \<Rightarrow> mainLoop env rest (Suc index) w1
            | (Rejected err, w1) \<Rightarrow> (HaltedAt index err, w1)
            | (Pending, w1) \<Rightarrow> (StalledAt index, w1)))"

text \<open>
  A fresh store and console with the empty schedule, and a store whose statements fail
  for no reason of their own.
\<close>

definition emptyWorld :: world where
  "emptyWorld =
     \<lparr>tables = [], savepoint = None, issued = [], pending = [], schedule = [], console = []\<rparr>"

definition noFaults :: "nat \<Rightarrow> bool" where
  "noFaults n = False"

section \<open>Auxiliary notions for the proofs about rows and streams\<close>

text \<open>The value of a field as the reducer reads it: \<^verbatim>\<open>value ?? ''\<close>.\<close>

definition fieldValue :: "jsstring option \<Rightarrow> jsstring" where
  "fieldValue value = (case value of None \<Rightarrow> [] | Some s \<Rightarrow> s)"

text \<open>
  A field of a parsed row that counts for the name \<open>k\<close>: its name sanitizes to \<open>k\<close> and
  its value is not blank. \<open>lastValue row k\<close> is the value, as parsed, of the last such
  field of the row, if there is one.
\<close>

definition countsFor :: "jsstring \<Rightarrow> jsstring \<times> jsstring option \<Rightarrow> bool" where
  "countsFor k kv \<longleftrightarrow> sanitizeName (fst kv) = k \<and> trim (fieldValue (snd kv)) \<noteq> []"

definition lastValue :: "csvrow \<Rightarrow> jsstring \<Rightarrow> jsstring option" where
  "lastValue row k = map_option (\<lambda>kv. fieldValue (snd kv)) (find (countsFor k) (rev row))"

text \<open>The console lines that the remapper writes while rows stream.\<close>

definition isRemapNotice :: "logline \<Rightarrow> bool" where
  "isRemapNotice l = (case l of LogRemapNotice t a b \<Rightarrow> True | _ \<Rightarrow> False)"

text \<open>The row that a rule leaves, which depends on the row and the column set only.\<close>

definition remapEntries :: "jsstring list \<Rightarrow> jsobject \<Rightarrow> jsstring \<times> jsstring \<Rightarrow> jsobject" where
  "remapEntries existingCols rawEntries rule =
     (case rule of (incoming, target) \<Rightarrow>
        (case getProp rawEntries (sanitizeName incoming) of
           None \<Rightarrow> rawEntries
         | Some v \<Rightarrow>
             if sanitizeName target \<in> set existingCols
             then deleteProp
                    (if getProp rawEntries (sanitizeName target) = None
                     then setProp rawEntries (sanitizeName target) v else rawEntries)
                    (sanitizeName incoming)
             else rawEntries))"

text \<open>The write set of a row: what the reducer and then the rules leave of it.\<close>

definition writeSet :: "jsstring list \<Rightarrow> (jsstring \<times> jsstring) list \<Rightarrow> csvrow \<Rightarrow> jsobject" where
  "writeSet existingCols rules row =
     foldl (remapEntries existingCols) (rawEntriesOf row) rules"

text \<open>The relations of the store with their columns, without their rows.\<close>

definition schemaOf :: "world \<Rightarrow> (jsstring \<times> jsstring list) list" where
  "schemaOf w = map (\<lambda>nt. (fst nt, columns (snd nt))) (tables w)"

section \<open>Three runs of the orchestrator\<close>

text \<open>The summary lines of the remapper.\<close>

definition isRemapTotal :: "logline \<Rightarrow> bool" where
  "isRemapTotal l = (case l of LogRemapTotal t k n \<Rightarrow> True | _ \<Rightarrow> False)"

text \<open>
  A CSV with a column \<^verbatim>\<open>Period\<close> and an empty column \<^verbatim>\<open>REF_DATE\<close>, with the
  remap table \<^verbatim>\<open>{"Period": "REF_DATE"}\<close>. The same text is served at a URL and stored
  in a local file.
\<close>

definition periodCsv :: jsstring where
  "periodCsv = js ''Period,REF_DATE,VALUE\<newline>2020-01,,100.2\<newline>2020-02,,100.4\<newline>''"

definition periodEnv :: env where
  "periodEnv =
     \<lparr>faults = noFaults,
      csvParser = (\<lambda>text. if text = periodCsv
         then HeaderEvent [js ''Period'', js ''REF_DATE'', js ''VALUE'']
                [[(js ''Period'', Some (js ''2020-01'')), (js ''REF_DATE'', Some []),
                  (js ''VALUE'', Some (js ''100.2''))],
                 [(js ''Period'', Some (js ''2020-02'')), (js ''REF_DATE'', Some []),
                  (js ''VALUE'', Some (js ''100.4''))]] End
         else NoHeaderEvent End),
      automigrations = [(js ''Period'', js ''REF_DATE'')],
      readFile = (\<lambda>p. if p = js ''cpi.csv'' then Some periodCsv else None),
      fetch = (\<lambda>u. Response True 200 periodCsv)\<rparr>"

text \<open>
  Two local datasets, the first with two headers that sanitize to the same column name,
  so that creating its relation fails; and the same list with the first dataset served
  at a URL.
\<close>

definition collidingCsv :: jsstring where
  "collidingCsv = js ''REF DATE,REF_DATE\<newline>2020-01,2020-01\<newline>''"

definition plainCsv :: jsstring where
  "plainCsv = js ''GEO,VALUE\<newline>Canada,1\<newline>''"

definition collidingEnv :: env where
  "collidingEnv =
     \<lparr>faults = noFaults,
      csvParser = (\<lambda>text.
         if text = collidingCsv
         then HeaderEvent [js ''REF DATE'', js ''REF_DATE'']
                [[(js ''REF DATE'', Some (js ''2020-01'')), (js ''REF_DATE'', Some (js ''2020-01''))]] End
         else if text = plainCsv
         then HeaderEvent [js ''GEO'', js ''VALUE'']
                [[(js ''GEO'', Some (js ''Canada'')), (js ''VALUE'', Some (js ''1''))]] End
         else NoHeaderEvent End),
      automigrations = [],
      readFile = (\<lambda>p. if p = js ''a.csv'' then Some collidingCsv
                        else if p = js ''b.csv'' then Some plainCsv else None),
      fetch = (\<lambda>u. Response True 200 collidingCsv)\<rparr>"

text \<open>
  A remote dataset of two rows, and a schedule for its run on a fresh store: nothing is
  in flight during the first seven waits (the fetch, the first event of the stream, the
  four statements before the rows, the first row); the insert of the first row runs
  while the program waits for the second row; the insert of the second row is still in
  flight when the program waits for \<^verbatim>\<open>COMMIT\<close>.
\<close>

definition cpiCsv :: jsstring where
  "cpiCsv = js ''REF_DATE,VALUE\<newline>2020-01,100.2\<newline>2020-02,100.4\<newline>''"

definition cpiEnv :: env where
  "cpiEnv =
     \<lparr>faults = noFaults,
      csvParser = (\<lambda>text. if text = cpiCsv
         then HeaderEvent [js ''REF_DATE'', js ''VALUE'']
                [[(js ''REF_DATE'', Some (js ''2020-01'')), (js ''VALUE'', Some (js ''100.2''))],
                 [(js ''REF_DATE'', Some (js ''2020-02'')), (js ''VALUE'', Some (js ''100.4''))]] End
         else NoHeaderEvent End),
      automigrations = [],
      readFile = (\<lambda>p. None),
      fetch = (\<lambda>u. Response True 200 cpiCsv)\<rparr>"

definition lateInsert :: "nat list list" where
  "lateInsert = [[], [], [], [], [], [], [], [0], []]"

section \<open>Properties of the sanitizer\<close>

lemma isWordChar_underscore: "isWordChar underscore"
  by (simp add: isWordChar_def underscore_def)

lemma sanitizeName_length: "length (sanitizeName s) = length s"
  by (simp add: sanitizeName_def)

lemma sanitizeName_wordChars: "c \<in> set (sanitizeName s) \<Longrightarrow> isWordChar c"
  by (auto simp: sanitizeName_def isWordChar_underscore)

lemma sanitizeName_nth:
  "i < length s \<Longrightarrow> sanitizeName s ! i = (if isWordChar (s ! i) then s ! i else underscore)"
  by (simp add: sanitizeName_def)

lemma sanitizeName_idem: "sanitizeName (sanitizeName s) = sanitizeName s"
  by (induction s) (simp_all add: sanitizeName_def isWordChar_underscore)

text \<open>
  Claim C8. For every input string the sanitizer returns a string of the same length
  that contains only characters of \<^verbatim>\<open>[A-Za-z0-9_]\<close>; at every position a valid
  character of the input is kept and any other character is replaced by an underscore.
  Being a HOL function of its argument alone, it is total and deterministic.
\<close>

theorem sanitizeTableName_spec:
  "length (sanitizeTableName name) = length name \<and>
   (\<forall>c \<in> set (sanitizeTableName name). isWordChar c) \<and>
   (\<forall>i < length name.
      sanitizeTableName name ! i = (if isWordChar (name ! i) then name ! i else underscore))"
  unfolding sanitizeTableName_def
  using sanitizeName_length sanitizeName_wordChars sanitizeName_nth by blast

theorem sanitizeTableName_spec_witness:
  "length (sanitizeTableName (js ''CPI, All Items'')) = 14 \<and>
   isWordChar (sanitizeTableName (js ''CPI, All Items'') ! 3) \<and>
   sanitizeTableName (js ''CPI, All Items'') ! 3 = underscore \<and>
   sanitizeTableName (js ''CPI, All Items'') ! 5 = of_char CHR ''A''"
proof -
  let ?n = "js ''CPI, All Items''"
  note spec = sanitizeTableName_spec [of ?n]
  have len: "length ?n = 14"
    by (simp add: js_def)
  have c3: "\<not> isWordChar (?n ! 3)" and c5: "isWordChar (?n ! 5)"
    and v5: "?n ! 5 = of_char CHR ''A''"
    by (simp_all add: js_def isWordChar_def)
  have l: "length (sanitizeTableName ?n) = 14"
    using spec len by simp
  then have "sanitizeTableName ?n ! 3 \<in> set (sanitizeTableName ?n)"
    by (intro nth_mem) simp
  then have w3: "isWordChar (sanitizeTableName ?n ! 3)"
    using spec by blast
  have n3: "sanitizeTableName ?n ! 3 = underscore"
    using spec len c3 by simp
  have n5: "sanitizeTableName ?n ! 5 = of_char CHR ''A''"
    using spec len c5 v5 by simp
  show ?thesis
    using l w3 n3 n5 by simp
qed

section \<open>Properties of the preamble stripper\<close>

lemma rxMatch_sound: "rxMatch r s = Some n \<Longrightarrow> n \<le> length s \<and> matches r (take n s)"
proof (induction r s arbitrary: n rule: rxMatch.induct)
  case (1 s)
  then show ?case by (simp add: m_nil)
next
  case (2 p r)
  then show ?case by simp
next
  case (3 p r c cs)
  then show ?case by (auto split: if_splits intro: m_one)
next
  case (4 p r)
  then show ?case by (auto intro: m_opt_skip)
next
  case (5 p r c cs)
  then show ?case
    by (auto split: if_splits option.splits intro: m_opt_skip m_opt_take)
next
  case (6 p r)
  then show ?case by (auto intro: m_star_skip)
next
  case (7 p r c cs)
  then show ?case
    by (auto split: if_splits option.splits intro: m_star_skip m_star_take)
qed

lemma rxMatch_complete: "matches r u \<Longrightarrow> \<exists>n. rxMatch r (u @ v) = Some n"
proof (induction r u rule: matches.induct)
  case m_nil
  then show ?case by simp
next
  case (m_one p c r u)
  then show ?case by auto
next
  case (m_opt_skip r u p)
  then show ?case by (cases "u @ v") (auto split: option.splits)
next
  case (m_opt_take p c r u)
  then show ?case by auto
next
  case (m_star_skip r u p)
  then show ?case by (cases "u @ v") (auto split: option.splits)
next
  case (m_star_take p c r u)
  then show ?case by auto
qed

lemma matches_one_iff: "matches (One p # r) u \<longleftrightarrow> (\<exists>c v. u = c # v \<and> p c \<and> matches r v)"
  by (subst matches.simps) auto

lemma matches_lettersD:
  "matches (map (\<lambda>p. One (\<lambda>c. f c = p)) ws @ r) u \<Longrightarrow>
     \<exists>w v. u = w @ v \<and> map f w = ws \<and> matches r v"
proof (induction ws arbitrary: u)
  case Nil
  then have "matches r u" by simp
  then show ?case by (intro exI[of _ "[]"] exI[of _ u]) simp
next
  case (Cons a ws)
  from Cons.prems have "matches (One (\<lambda>c. f c = a) # (map (\<lambda>p. One (\<lambda>c. f c = p)) ws @ r)) u"
    by simp
  then obtain c u' where u: "u = c # u'" "f c = a"
    and m: "matches (map (\<lambda>p. One (\<lambda>c. f c = p)) ws @ r) u'"
    unfolding matches_one_iff by blast
  from Cons.IH [OF m] obtain w v where "u' = w @ v" "map f w = ws" "matches r v" by blast
  then show ?case
    using u by (intro exI[of _ "c # w"] exI[of _ v]) simp
qed

lemma matches_lettersI:
  "map f w = ws \<Longrightarrow> matches r v \<Longrightarrow> matches (map (\<lambda>p. One (\<lambda>c. f c = p)) ws @ r) (w @ v)"
proof (induction w arbitrary: ws)
  case Nil
  then show ?case by simp
next
  case (Cons c w)
  then obtain ws' where ws: "ws = f c # ws'" "map f w = ws'" by auto
  have "matches (map (\<lambda>p. One (\<lambda>c. f c = p)) ws' @ r) (w @ v)"
    using Cons.IH [OF ws(2) Cons.prems(2)] .
  then have "matches (One (\<lambda>x. f x = f c) # (map (\<lambda>p. One (\<lambda>c. f c = p)) ws' @ r)) (c # (w @ v))"
    by (intro m_one) simp_all
  then show ?case using ws(1) by simp
qed

lemma matches_opt_iff:
  "matches (Opt p # r) u \<longleftrightarrow> matches r u \<or> (\<exists>c v. u = c # v \<and> p c \<and> matches r v)"
  by (subst matches.simps) auto

lemma matches_nil_iff: "matches [] u \<longleftrightarrow> u = []"
  by (subst matches.simps) auto

lemma matches_star: "matches (Star p # r) u \<Longrightarrow> \<exists>b v. u = b @ v \<and> (\<forall>c \<in> set b. p c) \<and> matches r v"
proof (induction "Star p # r" u rule: matches.induct)
  case (m_star_skip u)
  then show ?case by (intro exI[of _ "[]"] exI[of _ u]) simp
next
  case (m_star_take c u)
  then obtain b v where "u = b @ v" "\<forall>c \<in> set b. p c" "matches r v" by blast
  then show ?case using m_star_take.hyps(1)
    by (intro exI[of _ "c # b"] exI[of _ v]) simp
qed

lemma matches_starI: "(\<forall>c \<in> set b. p c) \<Longrightarrow> matches r v \<Longrightarrow> matches (Star p # r) (b @ v)"
  by (induction b) (simp_all add: m_star_skip m_star_take)

lemma matches_optD:
  "matches (Opt isQuote # r) u \<Longrightarrow> \<exists>q v. u = q @ v \<and> (q = [] \<or> q = [0x22]) \<and> matches r v"
proof -
  assume "matches (Opt isQuote # r) u"
  then consider "matches r u" | c v where "u = c # v" "isQuote c" "matches r v"
    unfolding matches_opt_iff by blast
  then show ?thesis
  proof cases
    case 1
    then show ?thesis by (intro exI[of _ "[]"] exI[of _ u]) simp
  next
    case 2
    then show ?thesis by (intro exI[of _ "[c]"] exI[of _ v]) (simp add: isQuote_def)
  qed
qed

lemma matches_optI:
  "q = [] \<or> q = [0x22] \<Longrightarrow> matches r v \<Longrightarrow> matches (Opt isQuote # r) (q @ v)"
  by (auto simp: matches_opt_iff isQuote_def)

lemma matches_obsPatternD:
  assumes "matches obsPattern u"
  shows "\<exists>l. u = l @ [LF] \<and> markerShape l"
proof -
  let ?letters = "map (\<lambda>p. One (\<lambda>c. asciiUpper c = p)) marker"
  have "matches (Star isBlank # Opt isQuote # (?letters @ [Opt isQuote, Star isBlank, One (\<lambda>c. c = LF)])) u"
    using assms by (simp add: obsPattern_def)
  from matches_star [OF this] obtain b1 v1 where 1: "u = b1 @ v1" "\<forall>c \<in> set b1. isBlank c"
    and m1: "matches (Opt isQuote # (?letters @ [Opt isQuote, Star isBlank, One (\<lambda>c. c = LF)])) v1"
    by blast
  from matches_optD [OF m1] obtain q1 v2 where 2: "v1 = q1 @ v2" "q1 = [] \<or> q1 = [0x22]"
    and m2: "matches (?letters @ [Opt isQuote, Star isBlank, One (\<lambda>c. c = LF)]) v2"
    by blast
  from matches_lettersD [OF m2] obtain w v3 where 3: "v2 = w @ v3" "map asciiUpper w = marker"
    and m3: "matches [Opt isQuote, Star isBlank, One (\<lambda>c. c = LF)] v3"
    by blast
  from matches_optD [OF m3] obtain q2 v4 where 4: "v3 = q2 @ v4" "q2 = [] \<or> q2 = [0x22]"
    and m4: "matches [Star isBlank, One (\<lambda>c. c = LF)] v4"
    by blast
  from matches_star [OF m4] obtain b2 v5 where 5: "v4 = b2 @ v5" "\<forall>c \<in> set b2. isBlank c"
    and m5: "matches [One (\<lambda>c. c = LF)] v5"
    by blast
  from m5 have 6: "v5 = [LF]"
    by (auto simp: matches_one_iff matches_nil_iff)
  have "u = (b1 @ q1 @ w @ q2 @ b2) @ [LF]" using 1 2 3 4 5 6 by simp
  moreover have "markerShape (b1 @ q1 @ w @ q2 @ b2)"
    unfolding markerShape_def using 1(2) 2(2) 3(2) 4(2) 5(2) by blast
  ultimately show ?thesis by blast
qed

lemma matches_obsPatternI:
  assumes "markerShape l"
  shows "matches obsPattern (l @ [LF])"
proof -
  let ?letters = "map (\<lambda>p. One (\<lambda>c. asciiUpper c = p)) marker"
  from assms obtain b1 q1 w q2 b2 where l: "l = b1 @ q1 @ w @ q2 @ b2"
    and b1: "\<forall>c \<in> set b1. isBlank c" and q1: "q1 = [] \<or> q1 = [0x22]"
    and w: "map asciiUpper w = marker" and q2: "q2 = [] \<or> q2 = [0x22]"
    and b2: "\<forall>c \<in> set b2. isBlank c"
    unfolding markerShape_def by blast
  have m5: "matches [One (\<lambda>c. c = LF)] [LF]"
    by (simp add: matches_one_iff matches_nil_iff)
  have m4: "matches [Star isBlank, One (\<lambda>c. c = LF)] (b2 @ [LF])"
    using matches_starI [OF b2 m5] .
  have m3: "matches [Opt isQuote, Star isBlank, One (\<lambda>c. c = LF)] (q2 @ b2 @ [LF])"
    using matches_optI [OF q2 m4] .
  have m2: "matches (?letters @ [Opt isQuote, Star isBlank, One (\<lambda>c. c = LF)]) (w @ q2 @ b2 @ [LF])"
    using matches_lettersI [OF w m3] .
  have m1: "matches (Opt isQuote # (?letters @ [Opt isQuote, Star isBlank, One (\<lambda>c. c = LF)]))
      (q1 @ w @ q2 @ b2 @ [LF])"
    using matches_optI [OF q1 m2] .
  have "matches (Star isBlank # Opt isQuote # (?letters @ [Opt isQuote, Star isBlank, One (\<lambda>c. c = LF)]))
      (b1 @ q1 @ w @ q2 @ b2 @ [LF])"
    using matches_starI [OF b1 m1] .
  then show ?thesis by (simp add: obsPattern_def l)
qed

lemma special_not_marker:
  "isBlank c \<or> isQuote c \<or> isLineTerminator c \<Longrightarrow> asciiUpper c \<notin> set marker"
  unfolding isBlank_def isQuote_def isLineTerminator_def
  by (elim disjE) (simp_all add: asciiUpper_def marker_def js_def)

lemma marker_letters:
  assumes "map asciiUpper w = marker" "c \<in> set w"
  shows "\<not> isBlank c \<and> \<not> isQuote c \<and> \<not> isLineTerminator c"
proof -
  have "asciiUpper c \<in> asciiUpper ` set w"
    using assms(2) by (rule imageI)
  then have "asciiUpper c \<in> set marker"
    using assms(1) by (metis set_map)
  then show ?thesis
    using special_not_marker by blast
qed

lemma marker_nonempty: "map asciiUpper w = marker \<Longrightarrow> w \<noteq> []"
  by (auto simp: marker_def js_def)

lemma dq2:
  assumes q2: "q2 = [] \<or> q2 = [0x22]" and wne: "w \<noteq> []" and lastw: "\<not> isQuote (last w)"
  shows "dropQuote (rev q2 @ rev w) = rev w"
proof -
  obtain x xs where r: "rev w = x # xs"
    using wne by (cases "rev w") simp_all
  then have "x = last w"
    by (metis last_rev list.sel(1) rev_rev_ident hd_rev)
  then have "\<not> isQuote x" using lastw by simp
  then show ?thesis
    using q2 r by (auto simp: dropQuote_def isQuote_def)
qed

lemma dq1:
  assumes q1: "q1 = [] \<or> q1 = [0x22]" and wne: "w \<noteq> []" and hdw: "\<not> isQuote (hd w)"
  shows "dropQuote (q1 @ w @ q2) = w @ q2"
  using assms by (cases w) (auto simp: dropQuote_def isQuote_def)

lemma quote_not_blank: "q = [] \<or> q = [0x22] \<Longrightarrow> c \<in> set q \<Longrightarrow> \<not> isBlank c \<and> \<not> isLineTerminator c"
  by (auto simp: isBlank_def isLineTerminator_def)

lemma dropQuote_split: "\<exists>q. (q = [] \<or> q = [0x22]) \<and> s = q @ dropQuote s"
  by (cases s) (auto simp: dropQuote_def isQuote_def)

lemma unquote_split:
  "\<exists>q1 q2. (q1 = [] \<or> q1 = [0x22]) \<and> (q2 = [] \<or> q2 = [0x22]) \<and> s = q1 @ unquote s @ q2"
proof -
  obtain q1 where q1: "q1 = [] \<or> q1 = [0x22]" "s = q1 @ dropQuote s"
    using dropQuote_split by blast
  obtain q2 where q2: "q2 = [] \<or> q2 = [0x22]"
    "rev (dropQuote s) = q2 @ dropQuote (rev (dropQuote s))"
    using dropQuote_split by blast
  have "dropQuote s = rev (q2 @ dropQuote (rev (dropQuote s)))"
    using q2(2) by (metis rev_rev_ident)
  then have "dropQuote s = unquote s @ rev q2"
    by (simp add: unquote_def)
  moreover have "rev q2 = q2" using q2(1) by auto
  ultimately have "s = q1 @ unquote s @ q2" using q1(2) by simp
  then show ?thesis using q1(1) q2(1) by blast
qed

lemma trimBlanks_split:
  "\<exists>b1 b2. (\<forall>c \<in> set b1. isBlank c) \<and> (\<forall>c \<in> set b2. isBlank c) \<and> s = b1 @ trimBlanks s @ b2"
proof -
  let ?d = "dropWhile isBlank s"
  let ?b1 = "takeWhile isBlank s"
  let ?b2 = "rev (takeWhile isBlank (rev ?d))"
  have "rev (rev ?d) = rev (takeWhile isBlank (rev ?d) @ dropWhile isBlank (rev ?d))"
    by (simp only: takeWhile_dropWhile_id)
  then have d: "?d = trimBlanks s @ ?b2"
    by (simp only: rev_rev_ident rev_append trimBlanks_def)
  have "s = ?b1 @ ?d" by simp
  then have "s = ?b1 @ trimBlanks s @ ?b2" using d by simp
  moreover have "\<forall>c \<in> set ?b1. isBlank c" by (auto dest: set_takeWhileD)
  moreover have "\<forall>c \<in> set ?b2. isBlank c" by (auto dest: set_takeWhileD)
  ultimately show ?thesis by blast
qed

lemma isMarkerLine_shape: "isMarkerLine l \<Longrightarrow> markerShape l"
proof -
  assume m: "isMarkerLine l"
  obtain b1 b2 where b: "\<forall>c \<in> set b1. isBlank c" "\<forall>c \<in> set b2. isBlank c"
    "l = b1 @ trimBlanks l @ b2"
    using trimBlanks_split by blast
  obtain q1 q2 where q: "q1 = [] \<or> q1 = [0x22]" "q2 = [] \<or> q2 = [0x22]"
    "trimBlanks l = q1 @ unquote (trimBlanks l) @ q2"
    using unquote_split by blast
  have "l = b1 @ q1 @ unquote (trimBlanks l) @ q2 @ b2"
    using b(3) q(3) by (metis append.assoc)
  moreover have "map asciiUpper (unquote (trimBlanks l)) = marker"
    using m by (simp add: isMarkerLine_def)
  ultimately show ?thesis
    unfolding markerShape_def using b(1,2) q(1,2)
    by (intro exI [of _ b1] exI [of _ q1] exI [of _ "unquote (trimBlanks l)"]
        exI [of _ q2] exI [of _ b2]) simp
qed

lemma dropWhile_blank_prefix:
  "(\<forall>c \<in> set b. isBlank c) \<Longrightarrow> s \<noteq> [] \<Longrightarrow> \<not> isBlank (hd s) \<Longrightarrow> dropWhile isBlank (b @ s) = s"
  by (cases s) (simp_all add: dropWhile_append3 dropWhile_append2)

lemma shape_isMarkerLine: "markerShape l \<Longrightarrow> isMarkerLine l"
proof -
  assume "markerShape l"
  then obtain b1 q1 w q2 b2 where l: "l = b1 @ q1 @ w @ q2 @ b2"
    and b1: "\<forall>c \<in> set b1. isBlank c" and q1: "q1 = [] \<or> q1 = [0x22]"
    and w: "map asciiUpper w = marker" and q2: "q2 = [] \<or> q2 = [0x22]"
    and b2: "\<forall>c \<in> set b2. isBlank c"
    unfolding markerShape_def by blast
  have wne: "w \<noteq> []" using w by (rule marker_nonempty)
  have hdw: "\<not> isBlank (hd w) \<and> \<not> isQuote (hd w)"
    using marker_letters [OF w, of "hd w"] wne by simp
  have lastw: "\<not> isBlank (last w) \<and> \<not> isQuote (last w)"
    using marker_letters [OF w, of "last w"] wne by simp
  have nbq: "\<not> isBlank 0x22" by (simp add: isBlank_def)
  have core_ne: "q1 @ w @ q2 @ b2 \<noteq> []" using wne by simp
  have "hd (q1 @ w @ q2 @ b2) = (if q1 = [] then hd w else 0x22)"
    using q1 wne by auto
  then have "\<not> isBlank (hd (q1 @ w @ q2 @ b2))"
    using hdw nbq by simp
  then have d1: "dropWhile isBlank l = q1 @ w @ q2 @ b2"
    unfolding l using dropWhile_blank_prefix [OF b1 core_ne] by simp
  have rne: "rev q2 @ rev w @ rev q1 \<noteq> []" using wne by simp
  have "hd (rev q2 @ rev w @ rev q1) = (if q2 = [] then last w else 0x22)"
    using q2 wne by (auto simp: hd_rev)
  then have nb: "\<not> isBlank (hd (rev q2 @ rev w @ rev q1))"
    using lastw nbq by simp
  have rb2: "\<forall>c \<in> set (rev b2). isBlank c" using b2 by simp
  have "dropWhile isBlank (rev b2 @ rev q2 @ rev w @ rev q1) = rev q2 @ rev w @ rev q1"
    using dropWhile_blank_prefix [OF rb2 rne nb] .
  then have t: "trimBlanks l = q1 @ w @ q2"
    by (simp add: trimBlanks_def d1)
  have dq1: "dropQuote (q1 @ w @ q2) = w @ q2"
    using dq1 q1 wne hdw by blast
  have dq2: "dropQuote (rev q2 @ rev w) = rev w"
    using dq2 q2 wne lastw by blast
  have "unquote (q1 @ w @ q2) = w"
    by (simp add: unquote_def dq1 dq2)
  then show ?thesis
    by (simp add: isMarkerLine_def t w)
qed

lemma isMarkerLine_iff_shape: "isMarkerLine l \<longleftrightarrow> markerShape l"
  using isMarkerLine_shape shape_isMarkerLine by blast

lemma isMarkerLine_no_terminator:
  assumes m: "isMarkerLine l" and c: "c \<in> set l"
  shows "\<not> isLineTerminator c"
proof -
  have "markerShape l" using m by (rule isMarkerLine_shape)
  then obtain b1 q1 w q2 b2 where l: "l = b1 @ q1 @ w @ q2 @ b2"
    and b1: "\<forall>c \<in> set b1. isBlank c" and q1: "q1 = [] \<or> q1 = [0x22]"
    and w: "map asciiUpper w = marker" and q2: "q2 = [] \<or> q2 = [0x22]"
    and b2: "\<forall>c \<in> set b2. isBlank c"
    unfolding markerShape_def by blast
  have blank: "\<not> isLineTerminator x" if "isBlank x" for x
    using that by (auto simp: isBlank_def isLineTerminator_def)
  from c have "c \<in> set b1 \<or> c \<in> set q1 \<or> c \<in> set w \<or> c \<in> set q2 \<or> c \<in> set b2"
    unfolding l by simp
  then show ?thesis
  proof (elim disjE)
    assume "c \<in> set b1" then show ?thesis using b1 blank by blast
  next
    assume "c \<in> set q1" then show ?thesis using quote_not_blank [OF q1] by blast
  next
    assume "c \<in> set w" then show ?thesis using marker_letters [OF w] by blast
  next
    assume "c \<in> set q2" then show ?thesis using quote_not_blank [OF q2] by blast
  next
    assume "c \<in> set b2" then show ?thesis using b2 blank by blast
  qed
qed

lemma first_terminator_unique:
  assumes "l @ t # r = l' @ t' # r'"
    and "\<forall>c \<in> set l. \<not> isLineTerminator c" "\<forall>c \<in> set l'. \<not> isLineTerminator c"
    and "isLineTerminator t" "isLineTerminator t'"
  shows "l = l' \<and> t = t' \<and> r = r'"
proof -
  have "takeWhile (\<lambda>c. \<not> isLineTerminator c) (l @ t # r) = l"
    using assms(2,4) by (simp add: takeWhile_append2)
  moreover have "takeWhile (\<lambda>c. \<not> isLineTerminator c) (l' @ t' # r') = l'"
    using assms(3,5) by (simp add: takeWhile_append2)
  ultimately have "l = l'" using assms(1) by simp
  then show ?thesis using assms(1) by simp
qed

lemma rxMatch_obs_shape:
  assumes "rxMatch obsPattern s = Some n"
  shows "\<exists>l. isMarkerLine l \<and> n = Suc (length l) \<and> s = l @ LF # drop n s"
proof -
  from rxMatch_sound [OF assms] have n: "n \<le> length s" and m: "matches obsPattern (take n s)"
    by simp_all
  from matches_obsPatternD [OF m] obtain l where l: "take n s = l @ [LF]" "markerShape l"
    by blast
  have "length (take n s) = Suc (length l)" using l(1) by simp
  then have len: "n = Suc (length l)" using n by simp
  have "s = take n s @ drop n s" by simp
  then have "s = l @ LF # drop n s" using l(1) by simp
  then show ?thesis using l(2) len shape_isMarkerLine by blast
qed

lemma LF_terminator: "isLineTerminator LF"
  by (simp add: isLineTerminator_def LF_def)

lemma rxMatch_obs_line:
  assumes free: "\<forall>c \<in> set l. \<not> isLineTerminator c" and t: "isLineTerminator t"
  shows "rxMatch obsPattern (l @ t # rest) =
    (if isMarkerLine l \<and> t = LF then Some (Suc (length l)) else None)"
proof -
  have fwd: "isMarkerLine l \<and> t = LF \<and> n = Suc (length l)"
    if "rxMatch obsPattern (l @ t # rest) = Some n" for n
  proof -
    from rxMatch_obs_shape [OF that] obtain l' where l': "isMarkerLine l'" "n = Suc (length l')"
      "l @ t # rest = l' @ LF # drop n (l @ t # rest)"
      by blast
    have "\<forall>c \<in> set l'. \<not> isLineTerminator c"
      using isMarkerLine_no_terminator [OF l'(1)] by blast
    from first_terminator_unique [OF l'(3) free this t LF_terminator]
    show ?thesis using l'(1,2) by simp
  qed
  show ?thesis
  proof (cases "isMarkerLine l \<and> t = LF")
    case True
    then have "matches obsPattern (l @ [LF])"
      using matches_obsPatternI isMarkerLine_shape by blast
    from rxMatch_complete [OF this, of rest] obtain n
      where "rxMatch obsPattern (l @ t # rest) = Some n"
      using True by auto
    then show ?thesis using fwd True by simp
  next
    case False
    then have "rxMatch obsPattern (l @ t # rest) = None"
      using fwd by (cases "rxMatch obsPattern (l @ t # rest)") auto
    then show ?thesis using False by simp
  qed
qed

lemma rxMatch_obs_lastline:
  assumes "\<forall>c \<in> set l. \<not> isLineTerminator c"
  shows "rxMatch obsPattern l = None"
proof (cases "rxMatch obsPattern l")
  case None
  then show ?thesis .
next
  case (Some n)
  from rxMatch_obs_shape [OF Some] obtain l' where "l = l' @ LF # drop n l" by blast
  then have "LF \<in> set l" by (metis in_set_conv_decomp)
  then show ?thesis using assms LF_terminator by blast
qed

lemma rxSearch_lineStart:
  "rxSearch pat True i s =
     (case rxMatch pat s of Some n \<Rightarrow> Some (i, n) | None \<Rightarrow> rxSearch pat False i s)"
  by (cases s) (simp_all split: option.splits)

lemma rxSearch_skip:
  "\<forall>c \<in> set l. \<not> isLineTerminator c \<Longrightarrow> isLineTerminator t \<Longrightarrow>
   rxSearch pat False i (l @ t # rest) = rxSearch pat True (i + length l + 1) rest"
  by (induction l arbitrary: i) simp_all

lemma rxSearch_skip_last:
  "\<forall>c \<in> set l. \<not> isLineTerminator c \<Longrightarrow> rxSearch pat False i l = None"
  by (induction l arbitrary: i) simp_all

lemma rxSearch_shift:
  "rxSearch pat b i s = map_option (\<lambda>(j, n). (i + j, n)) (rxSearch pat b 0 s)"
proof (induction s arbitrary: b i)
  case Nil
  then show ?case by (simp split: option.splits)
next
  case (Cons c cs)
  have "rxSearch pat (isLineTerminator c) (Suc i) cs =
      map_option (\<lambda>(j, n). (Suc i + j, n)) (rxSearch pat (isLineTerminator c) 0 cs)"
    by (rule Cons.IH)
  moreover have "rxSearch pat (isLineTerminator c) (Suc 0) cs =
      map_option (\<lambda>(j, n). (Suc 0 + j, n)) (rxSearch pat (isLineTerminator c) 0 cs)"
    by (rule Cons.IH)
  ultimately show ?case
    by (auto split: option.splits simp: option.map_comp comp_def case_prod_unfold)
qed

lemma linesFrom_line:
  "\<forall>c \<in> set l. \<not> isLineTerminator c \<Longrightarrow> isLineTerminator t \<Longrightarrow>
   linesFrom acc (l @ t # rest) = (rev acc @ l, Some (t, rest)) # linesFrom [] rest"
  by (induction l arbitrary: acc) simp_all

lemma linesFrom_last:
  "\<forall>c \<in> set l. \<not> isLineTerminator c \<Longrightarrow> linesFrom acc l = [(rev acc @ l, None)]"
  by (induction l arbitrary: acc) simp_all

lemma line_decomposition:
  "(\<forall>c \<in> set s. \<not> isLineTerminator c) \<or>
   (\<exists>l t rest. s = l @ t # rest \<and> (\<forall>c \<in> set l. \<not> isLineTerminator c) \<and> isLineTerminator t)"
proof (cases "\<forall>c \<in> set s. \<not> isLineTerminator c")
  case True
  then show ?thesis by simp
next
  case False
  then obtain l t rest where "s = l @ t # rest" "isLineTerminator t" "\<forall>c \<in> set l. \<not> isLineTerminator c"
    using split_list_first_prop [of s isLineTerminator] by blast
  then show ?thesis by blast
qed

lemma codeAfter_last:
  assumes "\<forall>c \<in> set s. \<not> isLineTerminator c"
  shows "codeAfter s = None" "afterFirstEndedMarker s = None"
proof -
  show "codeAfter s = None"
    by (simp add: codeAfter_def rxSearch_lineStart rxMatch_obs_lastline [OF assms]
        rxSearch_skip_last [OF assms])
  show "afterFirstEndedMarker s = None"
    using linesFrom_last [OF assms, of "[]"]
    by (simp add: afterFirstEndedMarker_def jsLines_def endedMarker_def)
qed

lemma codeAfter_line:
  assumes free: "\<forall>c \<in> set l. \<not> isLineTerminator c" and t: "isLineTerminator t"
  shows "codeAfter (l @ t # rest) = (if isMarkerLine l \<and> t = LF then Some rest else codeAfter rest)"
    and "afterFirstEndedMarker (l @ t # rest) =
      (if isMarkerLine l \<and> t = LF then Some rest else afterFirstEndedMarker rest)"
proof -
  show "codeAfter (l @ t # rest) = (if isMarkerLine l \<and> t = LF then Some rest else codeAfter rest)"
  proof (cases "isMarkerLine l \<and> t = LF")
    case True
    have "rxMatch obsPattern (l @ t # rest) = Some (Suc (length l))"
      using True rxMatch_obs_line [OF free t, of rest] by simp
    then have "codeAfter (l @ t # rest) = Some rest"
      by (simp add: codeAfter_def rxSearch_lineStart)
    then show ?thesis using True by simp
  next
    case False
    have "rxMatch obsPattern (l @ t # rest) = None"
      by (simp only: rxMatch_obs_line [OF free t] False if_False)
    then have "rxSearch obsPattern True 0 (l @ t # rest) = rxSearch obsPattern True (Suc (length l)) rest"
      by (simp add: rxSearch_lineStart [of _ 0] rxSearch_skip [OF free t])
    also have "\<dots> = map_option (\<lambda>(j, n). (Suc (length l) + j, n)) (rxSearch obsPattern True 0 rest)"
      by (rule rxSearch_shift)
    finally have "codeAfter (l @ t # rest) = codeAfter rest"
      by (simp add: codeAfter_def option.map_comp comp_def case_prod_unfold)
    then show ?thesis
      by (simp only: False if_False)
  qed
  show "afterFirstEndedMarker (l @ t # rest) =
      (if isMarkerLine l \<and> t = LF then Some rest else afterFirstEndedMarker rest)"
    using linesFrom_line [OF free t, of "[]" rest]
    by (simp add: afterFirstEndedMarker_def jsLines_def endedMarker_def)
qed

lemma codeAfter_eq: "codeAfter s = afterFirstEndedMarker s"
proof (induction s rule: length_induct)
  case (1 s)
  from line_decomposition [of s] show ?case
  proof
    assume "\<forall>c \<in> set s. \<not> isLineTerminator c"
    then show ?thesis using codeAfter_last by simp
  next
    assume "\<exists>l t rest. s = l @ t # rest \<and> (\<forall>c \<in> set l. \<not> isLineTerminator c) \<and> isLineTerminator t"
    then obtain l t rest where s: "s = l @ t # rest"
      and free: "\<forall>c \<in> set l. \<not> isLineTerminator c" and t: "isLineTerminator t"
      by blast
    have "length rest < length s" using s by simp
    then have "codeAfter rest = afterFirstEndedMarker rest" using "1.IH" by blast
    then show ?thesis
      unfolding s using codeAfter_line [OF free t, of rest] by simp
  qed
qed

lemma extractObservationsCSV_lines:
  "extractObservationsCSV fullText =
     (case afterFirstEndedMarker (replaceCR (replaceCRLF fullText)) of
        None \<Rightarrow> None
      | Some rest \<Rightarrow> if LF \<in> set (trimStart rest) then Some (trimStart rest) else None)"
proof -
  let ?text = "replaceCR (replaceCRLF fullText)"
  have "afterFirstEndedMarker ?text = codeAfter ?text"
    by (simp add: codeAfter_eq)
  then show ?thesis
    by (auto simp: extractObservationsCSV_def codeAfter_def Let_def split: option.splits)
qed

lemmas obs_eval =
  extractObservationsCSV_def payloadOf_def specStrip_def jsLines_def endedMarker_def
  isMarkerLine_def unquote_def dropQuote_def trimBlanks_def js_def replaceCR_def
  isLineTerminator_def marker_def obsPattern_def isBlank_def isQuote_def asciiUpper_def
  LF_def CR_def trimStart_def isWhiteSpace_def

lemma no_marker_no_ended:
  assumes "\<forall>ln \<in> set lns. \<not> isMarkerLine (fst ln)"
  shows "find endedMarker lns = None"
proof -
  have "\<not> endedMarker ln" if "ln \<in> set lns" for ln
    using assms that by (cases ln) (auto simp: endedMarker_def split: option.splits)
  then show ?thesis by (simp add: find_None_iff)
qed

text \<open>
  Claim C4, as amended. When no line of the normalised text is a marker line, the
  stripper returns the sentinel and the text as read is the payload. When a marker line
  that a newline ends is present and the text after the first such line, leading white
  space trimmed, still holds a newline, the stripper returns that trimmed text.
\<close>

theorem extractObservationsCSV_amended:
  "((\<forall>ln \<in> set (jsLines (replaceCR (replaceCRLF fullText))). \<not> isMarkerLine (fst ln)) \<longrightarrow>
      extractObservationsCSV fullText = None \<and> payloadOf fullText = fullText) \<and>
   (find endedMarker (jsLines (replaceCR (replaceCRLF fullText))) = Some (l, Some (t, rest)) \<and>
    LF \<in> set (trimStart rest) \<longrightarrow>
      extractObservationsCSV fullText = Some (trimStart rest) \<and>
      payloadOf fullText = trimStart rest)"
proof (intro conjI impI)
  assume "\<forall>ln \<in> set (jsLines (replaceCR (replaceCRLF fullText))). \<not> isMarkerLine (fst ln)"
  then have "find endedMarker (jsLines (replaceCR (replaceCRLF fullText))) = None"
    by (rule no_marker_no_ended)
  then have "afterFirstEndedMarker (replaceCR (replaceCRLF fullText)) = None"
    by (simp add: afterFirstEndedMarker_def)
  then show "extractObservationsCSV fullText = None"
    by (simp add: extractObservationsCSV_lines)
  then show "payloadOf fullText = fullText"
    by (simp add: payloadOf_def)
next
  assume a: "find endedMarker (jsLines (replaceCR (replaceCRLF fullText))) = Some (l, Some (t, rest)) \<and>
    LF \<in> set (trimStart rest)"
  then have "afterFirstEndedMarker (replaceCR (replaceCRLF fullText)) = Some rest"
    by (simp add: afterFirstEndedMarker_def)
  then show "extractObservationsCSV fullText = Some (trimStart rest)"
    using a by (simp add: extractObservationsCSV_lines)
  then show "payloadOf fullText = trimStart rest"
    by (simp add: payloadOf_def)
qed

theorem extractObservationsCSV_amended_witness:
  "extractObservationsCSV (js ''A,B\<newline>1,2\<newline>'') = None \<and>
   payloadOf (js ''A,B\<newline>1,2\<newline>'') = js ''A,B\<newline>1,2\<newline>'' \<and>
   extractObservationsCSV
     (js ''title,x'' @ [CR, LF] @ js '' \"Observations\" '' @ [CR, LF, CR, LF] @ js ''A,B\<newline>1,2\<newline>'') =
       Some (js ''A,B\<newline>1,2\<newline>'')"
proof -
  let ?plain = "js ''A,B\<newline>1,2\<newline>''"
  let ?wrapped = "js ''title,x'' @ [CR, LF] @ js '' \"Observations\" '' @ [CR, LF, CR, LF] @ js ''A,B\<newline>1,2\<newline>''"
  have h1: "\<forall>ln \<in> set (jsLines (replaceCR (replaceCRLF ?plain))). \<not> isMarkerLine (fst ln)"
    by (simp add: obs_eval)
  have h2: "find endedMarker (jsLines (replaceCR (replaceCRLF ?wrapped))) =
      Some (js '' \"Observations\" '', Some (LF, js ''\<newline>A,B\<newline>1,2\<newline>''))"
    by (simp add: obs_eval)
  have h3: "LF \<in> set (trimStart (js ''\<newline>A,B\<newline>1,2\<newline>''))"
    by (simp add: obs_eval)
  have h4: "trimStart (js ''\<newline>A,B\<newline>1,2\<newline>'') = js ''A,B\<newline>1,2\<newline>''"
    by (simp add: obs_eval)
  show ?thesis
    using extractObservationsCSV_amended [of ?plain] h1
      extractObservationsCSV_amended [of ?wrapped "js '' \"Observations\" ''" LF "js ''\<newline>A,B\<newline>1,2\<newline>''"]
      h2 h3 h4
    by simp
qed

text \<open>
  Claim C4 as stated fails: the first line below is a marker line and a header line
  follows it, so the specification's stripper returns the header line, but the code
  returns the sentinel because the text after the marker holds no newline.
\<close>

theorem extractObservationsCSV_counterexample:
  "isMarkerLine (js ''OBSERVATIONS'') \<and>
   jsLines (replaceCR (replaceCRLF (js ''OBSERVATIONS\<newline>A,B''))) =
     [(js ''OBSERVATIONS'', Some (LF, js ''A,B'')), (js ''A,B'', None)] \<and>
   specStrip (js ''OBSERVATIONS\<newline>A,B'') = Some (js ''A,B'') \<and>
   extractObservationsCSV (js ''OBSERVATIONS\<newline>A,B'') = None"
  by (simp add: obs_eval)

text \<open>
  Claim C10. The stripper returns the sentinel, and the whole text as read (preamble
  included) is the payload, whenever no marker line of the text is ended by a newline
  (so also when a marker line is the unterminated last line), and whenever the text
  after the first newline-ended marker line, leading white space trimmed, holds no
  newline (a header-only payload without a trailing newline).
\<close>

theorem extractObservationsCSV_sentinel_with_marker:
  "(find endedMarker (jsLines (replaceCR (replaceCRLF fullText))) = None \<longrightarrow>
      extractObservationsCSV fullText = None \<and> payloadOf fullText = fullText) \<and>
   (find endedMarker (jsLines (replaceCR (replaceCRLF fullText))) = Some (l, Some (t, rest)) \<and>
    LF \<notin> set (trimStart rest) \<longrightarrow>
      extractObservationsCSV fullText = None \<and> payloadOf fullText = fullText)"
proof (intro conjI impI)
  assume "find endedMarker (jsLines (replaceCR (replaceCRLF fullText))) = None"
  then have "afterFirstEndedMarker (replaceCR (replaceCRLF fullText)) = None"
    by (simp add: afterFirstEndedMarker_def)
  then show n: "extractObservationsCSV fullText = None"
    by (simp add: extractObservationsCSV_lines)
  then show "payloadOf fullText = fullText"
    by (simp add: payloadOf_def)
next
  assume a: "find endedMarker (jsLines (replaceCR (replaceCRLF fullText))) = Some (l, Some (t, rest)) \<and>
    LF \<notin> set (trimStart rest)"
  then have "afterFirstEndedMarker (replaceCR (replaceCRLF fullText)) = Some rest"
    by (simp add: afterFirstEndedMarker_def)
  then show "extractObservationsCSV fullText = None"
    using a by (simp add: extractObservationsCSV_lines)
  then show "payloadOf fullText = fullText"
    by (simp add: payloadOf_def)
qed

theorem extractObservationsCSV_sentinel_with_marker_witness:
  "isMarkerLine (js ''OBSERVATIONS'') \<and>
   extractObservationsCSV (js ''source,StatCan\<newline>OBSERVATIONS'') = None \<and>
   payloadOf (js ''source,StatCan\<newline>OBSERVATIONS'') = js ''source,StatCan\<newline>OBSERVATIONS'' \<and>
   extractObservationsCSV (js ''source,StatCan\<newline>OBSERVATIONS\<newline>\<newline>REF_DATE,VALUE'') = None \<and>
   payloadOf (js ''source,StatCan\<newline>OBSERVATIONS\<newline>\<newline>REF_DATE,VALUE'') =
     js ''source,StatCan\<newline>OBSERVATIONS\<newline>\<newline>REF_DATE,VALUE''"
proof -
  let ?open = "js ''source,StatCan\<newline>OBSERVATIONS''"
  let ?short = "js ''source,StatCan\<newline>OBSERVATIONS\<newline>\<newline>REF_DATE,VALUE''"
  have m: "isMarkerLine (js ''OBSERVATIONS'')"
    by (simp add: obs_eval)
  have h1: "find endedMarker (jsLines (replaceCR (replaceCRLF ?open))) = None"
    by (simp add: obs_eval)
  have h2: "find endedMarker (jsLines (replaceCR (replaceCRLF ?short))) =
      Some (js ''OBSERVATIONS'', Some (LF, js ''\<newline>REF_DATE,VALUE''))"
    by (simp add: obs_eval)
  have h3: "LF \<notin> set (trimStart (js ''\<newline>REF_DATE,VALUE''))"
    by (simp add: obs_eval)
  show ?thesis
    using extractObservationsCSV_sentinel_with_marker [of ?open] h1
      extractObservationsCSV_sentinel_with_marker
        [of ?short "js ''OBSERVATIONS''" LF "js ''\<newline>REF_DATE,VALUE''"] h2 h3 m
    by simp
qed

section \<open>Properties of row objects\<close>

lemma set_update_subset: "set (AList.update k v al) \<subseteq> insert (k, v) (set al)"
  by (induction al) auto

lemma map_of_update_eq: "map_of (AList.update k v al) = (map_of al)(k \<mapsto> v)"
  by (rule AList.update_conv')

lemma map_of_delete_eq: "map_of (AList.delete k al) = (map_of al)(k := None)"
  by (rule AList.delete_conv')

lemma distinct_setProp: "distinct (map fst obj) \<Longrightarrow> distinct (map fst (setProp obj k v))"
  by (simp add: setProp_def AList.distinct_update)

lemma distinct_deleteProp: "distinct (map fst obj) \<Longrightarrow> distinct (map fst (deleteProp obj k))"
  by (simp add: deleteProp_def AList.distinct_delete)

lemma set_ownEntries: "set (ownEntries obj) = set obj"
  by (auto simp: ownEntries_def)

lemma length_ownEntries: "length (ownEntries obj) = length obj"
proof -
  have "length (filter (\<lambda>kv. arrayIndex (fst kv) \<noteq> None) obj) +
      length (filter (\<lambda>kv. \<not> arrayIndex (fst kv) \<noteq> None) obj) = length obj"
    by (rule sum_length_filter_compl)
  then show ?thesis by (simp add: ownEntries_def)
qed

lemma objectKeys_set: "set (objectKeys obj) = fst ` set obj"
  by (simp add: objectKeys_def set_ownEntries)

lemma objectKeys_dom: "set (objectKeys obj) = dom (map_of obj)"
  by (simp add: objectKeys_set dom_map_of_conv_image_fst)

lemma objectKeys_empty: "length (objectKeys obj) = 0 \<longleftrightarrow> obj = []"
  by (simp add: objectKeys_def length_ownEntries)

lemma objectKeys_Nil_iff: "objectKeys obj = [] \<longleftrightarrow> obj = []"
  using objectKeys_empty [of obj] by simp

lemma distinct_ownEntries:
  assumes "distinct (map fst obj)"
  shows "distinct (map fst (ownEntries obj))"
proof -
  from assms have d: "distinct obj" and i: "inj_on fst (set obj)"
    by (simp_all add: distinct_map)
  have "distinct (ownEntries obj)"
    using d by (auto simp: ownEntries_def)
  moreover have "inj_on fst (set (ownEntries obj))"
    using i by (simp add: set_ownEntries)
  ultimately show ?thesis by (simp add: distinct_map)
qed

lemma distinct_objectKeys: "distinct (map fst obj) \<Longrightarrow> distinct (objectKeys obj)"
  by (simp add: objectKeys_def distinct_ownEntries)

lemma deleteProp_absent: "k \<notin> set (objectKeys (deleteProp obj k))"
  by (simp add: objectKeys_dom deleteProp_def map_of_delete_eq)

lemma addField_alt:
  "addField acc (key, value) =
     (if trim (fieldValue value) \<noteq> [] then setProp acc (sanitizeName key) (Str (fieldValue value))
      else acc)"
  by (simp add: addField_def fieldValue_def Let_def)

lemma foldl_addField_distinct:
  "distinct (map fst acc) \<Longrightarrow> distinct (map fst (foldl addField acc row))"
proof (induction row arbitrary: acc)
  case Nil
  then show ?case by simp
next
  case (Cons kv row)
  obtain key val where kv: "kv = (key, val)" by (cases kv)
  have "distinct (map fst (addField acc kv))"
    using Cons.prems by (simp add: kv addField_alt distinct_setProp)
  then show ?case using Cons.IH by simp
qed

lemma map_of_addField:
  assumes "k \<noteq> js ''__proto__''"
  shows "map_of (addField acc kv) k =
    (if countsFor k kv then Some (Str (fieldValue (snd kv))) else map_of acc k)"
proof (cases kv)
  case (Pair key val)
  show ?thesis
    using assms
    by (auto simp: Pair addField_alt countsFor_def setProp_def map_of_update_eq)
qed

lemma map_of_foldl_addField:
  assumes "k \<noteq> js ''__proto__''"
  shows "map_of (foldl addField acc row) k =
    (case lastValue row k of None \<Rightarrow> map_of acc k | Some s \<Rightarrow> Some (Str s))"
proof (induction row rule: rev_induct)
  case Nil
  then show ?case by (simp add: lastValue_def)
next
  case (snoc kv row)
  show ?case
  proof (cases "countsFor k kv")
    case True
    then show ?thesis
      using assms by (simp add: map_of_addField lastValue_def)
  next
    case False
    then show ?thesis
      using assms snoc.IH by (simp add: map_of_addField lastValue_def)
  qed
qed

lemma proto_never_own: "map_of acc (js ''__proto__'') = None \<Longrightarrow>
  map_of (foldl addField acc row) (js ''__proto__'') = None"
proof (induction row arbitrary: acc)
  case Nil
  then show ?case by simp
next
  case (Cons kv row)
  obtain key val where kv: "kv = (key, val)" by (cases kv)
  have "map_of (addField acc kv) (js ''__proto__'') = None"
    using Cons.prems by (simp add: kv addField_alt setProp_def map_of_update_eq)
  then show ?case using Cons.IH by simp
qed

lemma find_Some_member: "find P xs = Some x \<Longrightarrow> P x \<and> x \<in> set xs"
  by (induction xs) (auto split: if_splits)

lemma lastValue_None_iff:
  "lastValue row k = None \<longleftrightarrow> (\<forall>kv \<in> set row. \<not> countsFor k kv)"
  by (auto simp: lastValue_def find_None_iff)

lemma lastValue_Some:
  assumes "lastValue row k = Some s"
  shows "\<exists>key. (key, Some s) \<in> set row \<and> sanitizeName key = k \<and> trim s \<noteq> []"
proof -
  from assms obtain kv where f: "find (countsFor k) (rev row) = Some kv" and s: "fieldValue (snd kv) = s"
    by (auto simp: lastValue_def)
  from find_Some_member [OF f] have c: "countsFor k kv" and m: "kv \<in> set row"
    by simp_all
  obtain key val where kv: "kv = (key, val)" by (cases kv)
  from c s kv have t: "trim s \<noteq> []" and n: "sanitizeName key = k"
    by (simp_all add: countsFor_def)
  have "val = Some s"
  proof (cases val)
    case None
    then show ?thesis using c kv by (simp add: countsFor_def fieldValue_def trim_def trimStart_def trimEnd_def)
  next
    case (Some x)
    then show ?thesis using s kv by (simp add: fieldValue_def)
  qed
  then show ?thesis using m kv n t by blast
qed

section \<open>Properties of the remapper\<close>

lemma applyRule_entries:
  "fst (applyRule t cols (raw, rm, out) rule) = remapEntries cols raw rule"
  by (cases rule) (simp add: applyRule_def remapEntries_def Let_def split: option.splits)

lemma applyRule_console:
  "\<exists>ns. snd (snd (applyRule t cols (raw, rm, out) rule)) = out @ ns \<and> (\<forall>l \<in> set ns. isRemapNotice l)"
proof (cases rule)
  case (Pair incoming target)
  show ?thesis
  proof (cases "getProp raw (sanitizeName incoming) \<noteq> None \<and> sanitizeName target \<in> set cols \<and>
      remapKey (sanitizeName incoming) (sanitizeName target) \<notin> set (remapLoggedOnce rm)")
    case True
    then have "snd (snd (applyRule t cols (raw, rm, out) rule)) =
        out @ [LogRemapNotice t (sanitizeName incoming) (sanitizeName target)]"
      by (auto simp: Pair applyRule_def Let_def split: option.splits)
    then show ?thesis by (simp add: isRemapNotice_def)
  next
    case False
    then have "snd (snd (applyRule t cols (raw, rm, out) rule)) = out @ []"
      by (auto simp: Pair applyRule_def Let_def split: option.splits)
    then show ?thesis by (intro exI [of _ "[]"]) simp
  qed
qed

lemma applyRules_entries:
  "fst (applyRules t cols migr (raw, rm, out)) = foldl (remapEntries cols) raw migr"
proof (induction migr arbitrary: raw rm out)
  case Nil
  then show ?case by (simp add: applyRules_def)
next
  case (Cons rule migr)
  obtain raw1 rm1 out1 where s: "applyRule t cols (raw, rm, out) rule = (raw1, rm1, out1)"
    by (cases "applyRule t cols (raw, rm, out) rule") auto
  have "raw1 = remapEntries cols raw rule"
    using applyRule_entries [of t cols raw rm out rule] s by simp
  then show ?case
    using Cons.IH [of raw1 rm1 out1] by (simp add: applyRules_def s)
qed

lemma applyRules_console:
  "\<exists>ns. snd (snd (applyRules t cols migr (raw, rm, out))) = out @ ns \<and> (\<forall>l \<in> set ns. isRemapNotice l)"
proof (induction migr arbitrary: raw rm out)
  case Nil
  then show ?case by (simp add: applyRules_def)
next
  case (Cons rule migr)
  obtain raw1 rm1 out1 where s: "applyRule t cols (raw, rm, out) rule = (raw1, rm1, out1)"
    by (cases "applyRule t cols (raw, rm, out) rule") auto
  obtain ns1 where 1: "out1 = out @ ns1" "\<forall>l \<in> set ns1. isRemapNotice l"
    using applyRule_console [of t cols raw rm out rule] s by auto
  obtain ns2 where 2: "snd (snd (applyRules t cols migr (raw1, rm1, out1))) = out1 @ ns2"
    "\<forall>l \<in> set ns2. isRemapNotice l"
    using Cons.IH by blast
  have "snd (snd (applyRules t cols (rule # migr) (raw, rm, out))) = out @ (ns1 @ ns2)"
    using 1(1) 2(1) by (simp add: applyRules_def s)
  moreover have "\<forall>l \<in> set (ns1 @ ns2). isRemapNotice l"
    using 1(2) 2(2) by auto
  ultimately show ?case by blast
qed

lemma getProp_None_own: "getProp obj k = None \<Longrightarrow> map_of obj k = None"
  by (simp add: getProp_def split: option.splits if_splits)

lemma map_of_setProp_other: "k \<noteq> k' \<Longrightarrow> map_of (setProp obj k' v) k = map_of obj k"
  by (simp add: setProp_def map_of_update_eq)

lemma map_of_deleteProp: "map_of (deleteProp obj k') k = (if k = k' then None else map_of obj k)"
  by (simp add: deleteProp_def map_of_delete_eq)

text \<open>A rule whose two names sanitize alike leaves no own property of that name.\<close>

lemma remapEntries_same_name:
  assumes "sanitizeName incoming = K" "sanitizeName target = K" "K \<in> set cols"
  shows "map_of (remapEntries cols raw (incoming, target)) K = None"
proof (cases "getProp raw K")
  case None
  then show ?thesis
    using assms by (simp add: remapEntries_def getProp_None_own)
next
  case (Some v)
  then show ?thesis
    using assms by (simp add: remapEntries_def map_of_deleteProp)
qed

text \<open>A rule with another target does not create the property.\<close>

lemma remapEntries_keeps_absent:
  assumes "sanitizeName target \<noteq> K" "map_of raw K = None"
  shows "map_of (remapEntries cols raw (incoming, target)) K = None"
  using assms
  by (auto simp: remapEntries_def map_of_deleteProp map_of_setProp_other split: option.splits)

lemma foldl_remapEntries_keeps_absent:
  assumes "\<forall>rule \<in> set rules. sanitizeName (snd rule) \<noteq> K" "map_of raw K = None"
  shows "map_of (foldl (remapEntries cols) raw rules) K = None"
  using assms
proof (induction rules arbitrary: raw)
  case Nil
  then show ?case by simp
next
  case (Cons rule rules)
  obtain a b where r: "rule = (a, b)" by (cases rule)
  have "map_of (remapEntries cols raw rule) K = None"
    using Cons.prems by (simp add: r remapEntries_keeps_absent)
  then show ?case using Cons by simp
qed

lemma foldl_remapEntries_same_name:
  assumes "sanitizeName incoming = K" "sanitizeName target = K" "K \<in> set cols"
    "\<forall>rule \<in> set later. sanitizeName (snd rule) \<noteq> K"
  shows "map_of (foldl (remapEntries cols) raw (earlier @ (incoming, target) # later)) K = None"
proof -
  have "map_of (remapEntries cols (foldl (remapEntries cols) raw earlier) (incoming, target)) K = None"
    using assms(1-3) by (rule remapEntries_same_name)
  then show ?thesis
    using assms(4) by (simp add: foldl_remapEntries_keeps_absent)
qed

section \<open>Properties of the data handler\<close>

lemma dataHandler_unfold:
  "dataHandler migr t cols (rm, w) row =
     (fst (snd (applyRules t cols migr (rawEntriesOf row, rm, console w))),
      if writeSet cols migr row = []
      then w\<lparr>console := snd (snd (applyRules t cols migr (rawEntriesOf row, rm, console w)))\<rparr>
      else w\<lparr>console := snd (snd (applyRules t cols migr (rawEntriesOf row, rm, console w))),
             pending := pending w @
               [(t, objectKeys (writeSet cols migr row), objectValues (writeSet cols migr row))]\<rparr>)"
proof -
  obtain raw1 rm1 out1 where s:
    "applyRules t cols migr (rawEntriesOf row, rm, console w) = (raw1, rm1, out1)"
    by (cases "applyRules t cols migr (rawEntriesOf row, rm, console w)") auto
  have "raw1 = writeSet cols migr row"
    using applyRules_entries [of t cols migr "rawEntriesOf row" rm "console w"] s
    by (simp add: writeSet_def)
  then show ?thesis
    by (simp add: dataHandler_def s Let_def objectKeys_Nil_iff)
qed

lemma dataHandler_store:
  assumes "dataHandler migr t cols (rm, w) row = (rm', w')"
  shows "tables w' = tables w" "issued w' = issued w" "savepoint w' = savepoint w"
    "schedule w' = schedule w"
  using assms by (auto simp: dataHandler_unfold split: if_splits)

lemma dataHandler_pending:
  assumes "dataHandler migr t cols (rm, w) row = (rm', w')"
  shows "pending w' =
    (if writeSet cols migr row = [] then pending w
     else pending w @
       [(t, objectKeys (writeSet cols migr row), objectValues (writeSet cols migr row))])"
  using assms by (auto simp: dataHandler_unfold split: if_splits)

lemma dataHandler_console:
  assumes "dataHandler migr t cols (rm, w) row = (rm', w')"
  shows "\<exists>ns. console w' = console w @ ns \<and> (\<forall>l \<in> set ns. isRemapNotice l)"
proof -
  have "console w' = snd (snd (applyRules t cols migr (rawEntriesOf row, rm, console w)))"
    using assms by (auto simp: dataHandler_unfold split: if_splits)
  then show ?thesis
    using applyRules_console [of t cols migr "rawEntriesOf row" rm "console w"] by simp
qed

section \<open>The write set and the remapper on whole rows\<close>

lemmas row_eval =
  rawEntriesOf_def addField_def setProp_def deleteProp_def getProp_def objectKeys_def
  objectValues_def ownEntries_def arrayIndex_def isDigit_def decimal_def indexOf_def
  objectPrototypeNames_def sanitizeName_def isWordChar_def underscore_def
  trim_def trimStart_def trimEnd_def isWhiteSpace_def js_def applyRule_def applyRules_def
  remapKey_def setAdd_def newRemap_def fieldValue_def lastValue_def countsFor_def

text \<open>
  Claim C7, as amended. The write set built before remap has no name twice and maps
  each sanitized field name (other than \<^verbatim>\<open>__proto__\<close>) that has a field whose value
  is not blank to that value as parsed, not trimmed: the value of the last such field of
  the row. A name all of whose fields are blank or missing is absent from it, and every
  entry comes from a field of the row that is not blank; so a row whose fields are all
  blank or missing gives the empty write set. A row whose write set is empty after remap
  is skipped: no insert is passed to the store, nothing reaches the store, and the
  console gains nothing but the notices of the remapper.
\<close>

theorem rawEntriesOf_write_set:
  "distinct (objectKeys (rawEntriesOf row)) \<and>
   (k \<noteq> js ''__proto__'' \<longrightarrow> map_of (rawEntriesOf row) k = map_option Str (lastValue row k)) \<and>
   (\<forall>(k, v) \<in> set (rawEntriesOf row).
      \<exists>key s. (key, Some s) \<in> set row \<and> k = sanitizeName key \<and> v = Str s \<and> trim s \<noteq> []) \<and>
   ((\<forall>(key, val) \<in> set row. trim (fieldValue val) = []) \<longrightarrow> rawEntriesOf row = []) \<and>
   (fst (applyRules t cols migr (rawEntriesOf row, rm, console w)) = [] \<and>
    dataHandler migr t cols (rm, w) row = (rm', w') \<longrightarrow>
      pending w' = pending w \<and> issued w' = issued w \<and> tables w' = tables w \<and>
      (\<exists>ns. console w' = console w @ ns \<and> (\<forall>l \<in> set ns. isRemapNotice l)))"
proof (intro conjI impI)
  show d: "distinct (objectKeys (rawEntriesOf row))"
    using foldl_addField_distinct [of "[]" row]
    by (simp add: rawEntriesOf_def distinct_objectKeys)
next
  assume "k \<noteq> js ''__proto__''"
  then show "map_of (rawEntriesOf row) k = map_option Str (lastValue row k)"
    using map_of_foldl_addField [of k "[]" row]
    by (simp add: rawEntriesOf_def split: option.splits)
next
  show "\<forall>(k, v) \<in> set (rawEntriesOf row).
      \<exists>key s. (key, Some s) \<in> set row \<and> k = sanitizeName key \<and> v = Str s \<and> trim s \<noteq> []"
  proof (clarify)
    fix k v
    assume m: "(k, v) \<in> set (rawEntriesOf row)"
    have dm: "distinct (map fst (rawEntriesOf row))"
      using foldl_addField_distinct [of "[]" row] by (simp add: rawEntriesOf_def)
    from m dm have mo: "map_of (rawEntriesOf row) k = Some v" by simp
    have "k \<noteq> js ''__proto__''"
      using mo proto_never_own [of "[]" row] by (auto simp: rawEntriesOf_def)
    then have "map_option Str (lastValue row k) = Some v"
      using map_of_foldl_addField [of k "[]" row] mo
      by (simp add: rawEntriesOf_def split: option.splits)
    then obtain s where s: "lastValue row k = Some s" "v = Str s" by auto
    from lastValue_Some [OF s(1)] s(2)
    show "\<exists>key s. (key, Some s) \<in> set row \<and> k = sanitizeName key \<and> v = Str s \<and> trim s \<noteq> []"
      by blast
  qed
next
  assume b: "\<forall>(key, val) \<in> set row. trim (fieldValue val) = []"
  have "foldl addField acc row = acc" if "\<forall>(key, val) \<in> set row. trim (fieldValue val) = []"
    for acc using that
  proof (induction row arbitrary: acc)
    case Nil
    then show ?case by simp
  next
    case (Cons kv row)
    obtain key val where kv: "kv = (key, val)" by (cases kv)
    have "addField acc kv = acc"
      using Cons.prems by (simp add: kv addField_alt)
    then show ?case using Cons by simp
  qed
  then show "rawEntriesOf row = []"
    using b by (simp add: rawEntriesOf_def)
next
  assume a: "fst (applyRules t cols migr (rawEntriesOf row, rm, console w)) = [] \<and>
    dataHandler migr t cols (rm, w) row = (rm', w')"
  then have e: "writeSet cols migr row = []" and h: "dataHandler migr t cols (rm, w) row = (rm', w')"
    by (simp_all add: applyRules_entries writeSet_def)
  show "pending w' = pending w"
    using dataHandler_pending [OF h] e by simp
  show "issued w' = issued w" by (rule dataHandler_store(2) [OF h])
  show "tables w' = tables w" by (rule dataHandler_store(1) [OF h])
  show "\<exists>ns. console w' = console w @ ns \<and> (\<forall>l \<in> set ns. isRemapNotice l)"
    by (rule dataHandler_console [OF h])
qed

theorem rawEntriesOf_write_set_witness:
  "map_of (rawEntriesOf [(js ''REF DATE'', Some (js ''2020-01'')), (js ''VALUE'', Some (js ''  '')),
                 (js ''STATUS'', None), (js ''REF_DATE'', Some (js ''2020-02''))])
      (js ''REF_DATE'') = Some (Str (js ''2020-02'')) \<and>
   map_of (rawEntriesOf [(js ''REF DATE'', Some (js ''2020-01'')), (js ''VALUE'', Some (js ''  '')),
                 (js ''STATUS'', None), (js ''REF_DATE'', Some (js ''2020-02''))])
      (js ''VALUE'') = None \<and>
   distinct (objectKeys (rawEntriesOf
     [(js ''REF DATE'', Some (js ''2020-01'')), (js ''VALUE'', Some (js ''  '')),
      (js ''STATUS'', None), (js ''REF_DATE'', Some (js ''2020-02''))])) \<and>
   rawEntriesOf [(js ''REF DATE'', Some (js '' '')), (js ''VALUE'', None)] = [] \<and>
   pending (snd (dataHandler [] (js ''CPI'') [js ''REF_DATE'', js ''VALUE'']
     (newRemap, emptyWorld) [(js ''REF DATE'', Some (js '' '')), (js ''VALUE'', None)])) = [] \<and>
   issued (snd (dataHandler [] (js ''CPI'') [js ''REF_DATE'', js ''VALUE'']
     (newRemap, emptyWorld) [(js ''REF DATE'', Some (js '' '')), (js ''VALUE'', None)])) = []"
proof -
  let ?row = "[(js ''REF DATE'', Some (js ''2020-01'')), (js ''VALUE'', Some (js ''  '')),
    (js ''STATUS'', None), (js ''REF_DATE'', Some (js ''2020-02''))]"
  let ?blank = "[(js ''REF DATE'', Some (js '' '')), (js ''VALUE'', None)]"
  let ?cols = "[js ''REF_DATE'', js ''VALUE'']"
  let ?r = "dataHandler [] (js ''CPI'') ?cols (newRemap, emptyWorld) ?blank"
  have n1: "js ''REF_DATE'' \<noteq> js ''__proto__''" and n2: "js ''VALUE'' \<noteq> js ''__proto__''"
    by (simp_all add: js_def)
  have l1: "lastValue ?row (js ''REF_DATE'') = Some (js ''2020-02'')"
    by (simp add: row_eval)
  have l2: "lastValue ?row (js ''VALUE'') = None"
    by (simp add: row_eval)
  have m1: "map_of (rawEntriesOf ?row) (js ''REF_DATE'') = Some (Str (js ''2020-02''))"
    using rawEntriesOf_write_set [of ?row "js ''REF_DATE''"] n1 l1 by simp
  have m2: "map_of (rawEntriesOf ?row) (js ''VALUE'') = None"
    using rawEntriesOf_write_set [of ?row "js ''VALUE''"] n2 l2 by simp
  have d: "distinct (objectKeys (rawEntriesOf ?row))"
    using rawEntriesOf_write_set [of ?row] by blast
  have b: "\<forall>(key, val) \<in> set ?blank. trim (fieldValue val) = []"
    by (simp add: row_eval)
  have r0: "rawEntriesOf ?blank = []"
    using rawEntriesOf_write_set [of ?blank] b by blast
  have a: "fst (applyRules (js ''CPI'') ?cols [] (rawEntriesOf ?blank, newRemap, console emptyWorld)) = []"
    using r0 by (simp add: applyRules_def)
  have p: "?r = (fst ?r, snd ?r)" by simp
  have "pending (snd ?r) = pending emptyWorld \<and> issued (snd ?r) = issued emptyWorld"
    using rawEntriesOf_write_set
      [of ?blank _ "js ''CPI''" ?cols "[]" newRemap emptyWorld "fst ?r" "snd ?r"] a p
    by blast
  then have i: "pending (snd ?r) = [] \<and> issued (snd ?r) = []"
    by (simp add: emptyWorld_def)
  show ?thesis using m1 m2 d r0 i by blast
qed

text \<open>
  Claim C7 as stated fails: the value of a kept field is stored as parsed, with its
  surrounding blanks, not trimmed.
\<close>

theorem rawEntriesOf_counterexample:
  "rawEntriesOf [(js ''VALUE'', Some (js '' 100.2 ''))] = [(js ''VALUE'', Str (js '' 100.2 ''))] \<and>
   trim (js '' 100.2 '') = js ''100.2'' \<and> js '' 100.2 '' \<noteq> js ''100.2''"
  by (simp add: row_eval)

text \<open>
  Claim C9, as amended. Take a rule of the remap table whose incoming and target names
  sanitize to the same identifier \<open>K\<close>, with \<open>K\<close> a column of the relation, and no later
  rule of the table whose target sanitizes to \<open>K\<close>. Then for every row the remapper (the
  whole loop over the table) leaves no field \<open>K\<close>: a field \<open>K\<close> of the row is deleted and
  its value is not kept under the target name. The insert that the \<^verbatim>\<open>data\<close> handler
  passes to the store, if any, has no key \<open>K\<close>.
\<close>

theorem remapper_same_name_loses_field:
  "sanitizeName incoming = K \<and> sanitizeName target = K \<and> K \<in> set existingCols \<and>
   (\<forall>rule \<in> set later. sanitizeName (snd rule) \<noteq> K) \<longrightarrow>
     K \<notin> set (objectKeys (fst (applyRules t existingCols (earlier @ (incoming, target) # later)
                                 (rawEntries, rm, out)))) \<and>
     (dataHandler (earlier @ (incoming, target) # later) t existingCols (rm, w) row = (rm', w') \<longrightarrow>
        pending w' = pending w \<or>
        (\<exists>keys vals. pending w' = pending w @ [(t, keys, vals)] \<and> K \<notin> set keys))"
proof (intro impI conjI)
  assume a: "sanitizeName incoming = K \<and> sanitizeName target = K \<and> K \<in> set existingCols \<and>
    (\<forall>rule \<in> set later. sanitizeName (snd rule) \<noteq> K)"
  then have a1: "sanitizeName incoming = K" and a2: "sanitizeName target = K"
    and a3: "K \<in> set existingCols" and a4: "\<forall>rule \<in> set later. sanitizeName (snd rule) \<noteq> K"
    by blast+
  have gone: "map_of (foldl (remapEntries existingCols) raw (earlier @ (incoming, target) # later)) K = None"
    for raw
    using a1 a2 a3 a4 by (rule foldl_remapEntries_same_name)
  show "K \<notin> set (objectKeys (fst (applyRules t existingCols (earlier @ (incoming, target) # later)
      (rawEntries, rm, out))))"
    using gone [of rawEntries] by (simp add: applyRules_entries objectKeys_dom domIff)
  assume h: "dataHandler (earlier @ (incoming, target) # later) t existingCols (rm, w) row = (rm', w')"
  let ?ws = "writeSet existingCols (earlier @ (incoming, target) # later) row"
  have k: "K \<notin> set (objectKeys ?ws)"
    using gone [of "rawEntriesOf row"] by (simp add: writeSet_def objectKeys_dom domIff)
  show "pending w' = pending w \<or>
      (\<exists>keys vals. pending w' = pending w @ [(t, keys, vals)] \<and> K \<notin> set keys)"
  proof (cases "?ws = []")
    case True
    then show ?thesis using dataHandler_pending [OF h] by simp
  next
    case False
    then have "pending w' = pending w @ [(t, objectKeys ?ws, objectValues ?ws)]"
      using dataHandler_pending [OF h] by simp
    then show ?thesis using k by blast
  qed
qed

theorem remapper_same_name_loses_field_witness:
  "js ''REF_DATE'' \<notin> set (objectKeys (fst (applyRules (js ''CPI'') [js ''REF_DATE'', js ''VALUE'']
       [(js ''REF DATE'', js ''REF_DATE'')]
       ([(js ''REF_DATE'', Str (js ''2020-01'')), (js ''VALUE'', Str (js ''100.2''))], newRemap, [])))) \<and>
   map_of [(js ''REF_DATE'', Str (js ''2020-01'')), (js ''VALUE'', Str (js ''100.2''))] (js ''REF_DATE'') =
     Some (Str (js ''2020-01'')) \<and>
   pending (snd (dataHandler [(js ''REF DATE'', js ''REF_DATE'')] (js ''CPI'')
       [js ''REF_DATE'', js ''VALUE''] (newRemap, emptyWorld)
       [(js ''REF_DATE'', Some (js ''2020-01'')), (js ''VALUE'', Some (js ''100.2''))])) =
     [(js ''CPI'', [js ''VALUE''], [Str (js ''100.2'')])]"
proof -
  let ?raw = "[(js ''REF_DATE'', Str (js ''2020-01'')), (js ''VALUE'', Str (js ''100.2''))]"
  let ?cols = "[js ''REF_DATE'', js ''VALUE'']"
  have h: "sanitizeName (js ''REF DATE'') = js ''REF_DATE'' \<and>
    sanitizeName (js ''REF_DATE'') = js ''REF_DATE'' \<and> js ''REF_DATE'' \<in> set ?cols \<and>
    (\<forall>rule \<in> set []. sanitizeName (snd rule) \<noteq> js ''REF_DATE'')"
    by (simp add: row_eval)
  have 1: "js ''REF_DATE'' \<notin> set (objectKeys (fst (applyRules (js ''CPI'') ?cols
      ([] @ (js ''REF DATE'', js ''REF_DATE'') # []) (?raw, newRemap, []))))"
    using remapper_same_name_loses_field
      [of "js ''REF DATE''" "js ''REF_DATE''" "js ''REF_DATE''" ?cols "[]" "js ''CPI''" "[]"
          ?raw newRemap "[]", THEN mp, OF h]
    by (rule conjunct1)
  have 2: "map_of ?raw (js ''REF_DATE'') = Some (Str (js ''2020-01''))"
    by (simp add: js_def)
  have 3: "pending (snd (dataHandler [(js ''REF DATE'', js ''REF_DATE'')] (js ''CPI'') ?cols
      (newRemap, emptyWorld)
      [(js ''REF_DATE'', Some (js ''2020-01'')), (js ''VALUE'', Some (js ''100.2''))])) =
      [(js ''CPI'', [js ''VALUE''], [Str (js ''100.2'')])]"
    by (simp add: dataHandler_def emptyWorld_def row_eval Let_def)
  show ?thesis using 1 2 3 by simp
qed

text \<open>
  Claim C9 as stated fails when a later rule has the same target: with the table
  \<^verbatim>\<open>{"REF DATE": "REF_DATE", "Period": "REF_DATE"}\<close> and a row that has both fields,
  the first rule deletes \<^verbatim>\<open>REF_DATE\<close> and the second writes it again, with the value
  of \<^verbatim>\<open>Period\<close>: the row that the remapper leaves has the field, and the insert has
  the key.
\<close>

theorem remapper_same_name_counterexample:
  "fst (applyRules (js ''CPI'') [js ''REF_DATE'', js ''VALUE'']
       [(js ''REF DATE'', js ''REF_DATE''), (js ''Period'', js ''REF_DATE'')]
       ([(js ''REF_DATE'', Str (js ''2020-01'')), (js ''Period'', Str (js ''2020-Q1''))], newRemap, [])) =
     [(js ''REF_DATE'', Str (js ''2020-Q1''))] \<and>
   pending (snd (dataHandler [(js ''REF DATE'', js ''REF_DATE''), (js ''Period'', js ''REF_DATE'')]
       (js ''CPI'') [js ''REF_DATE'', js ''VALUE''] (newRemap, emptyWorld)
       [(js ''REF_DATE'', Some (js ''2020-01'')), (js ''Period'', Some (js ''2020-Q1''))])) =
     [(js ''CPI'', [js ''REF_DATE''], [Str (js ''2020-Q1'')])]"
  by (simp add: dataHandler_def emptyWorld_def row_eval Let_def)

text \<open>
  Claim C3 at a rule whose incoming name is a member of \<^verbatim>\<open>Object.prototype\<close>: the row
  has no field \<^verbatim>\<open>constructor\<close>, yet the rule fires. The counter is incremented, the
  notice is logged and the inherited member is copied under the target name.
\<close>

theorem remap_fires_without_field:
  "map_of [(js ''model'', Str (js ''T''))] (sanitizeName (js ''constructor'')) = None \<and>
   applyRule (js ''cars'') [js ''maker'', js ''model'']
     ([(js ''model'', Str (js ''T''))], newRemap, []) (js ''constructor'', js ''maker'') =
     ([(js ''model'', Str (js ''T'')), (js ''maker'', Inherited (js ''constructor''))],
      \<lparr>remapLoggedOnce = [js ''constructor>maker''],
       remapCounts = [(js ''constructor>maker'', 1)]\<rparr>,
      [LogRemapNotice (js ''cars'') (js ''constructor'') (js ''maker'')])"
  by (simp add: row_eval Let_def)

section \<open>Properties of the store\<close>

lemma effect_keeps:
  "effect s w = Some w' \<Longrightarrow>
   issued w' = issued w \<and> console w' = console w \<and> pending w' = pending w \<and>
   schedule w' = schedule w"
  by (cases s) (auto simp: effect_def split: option.splits if_splits)

lemma dbRun_issued:
  "dbRun flt s w = (ok, w') \<Longrightarrow> issued w' = issued w @ [(s, ok)]"
  by (auto simp: dbRun_def split: option.splits if_splits)

lemma dbRun_keeps:
  "dbRun flt s w = (ok, w') \<Longrightarrow>
   console w' = console w \<and> pending w' = pending w \<and> schedule w' = schedule w"
  by (auto simp: dbRun_def split: option.splits if_splits dest: effect_keeps)


lemma map_of_schema:
  "map_of (map (\<lambda>nt. (fst nt, columns (snd nt))) al) k = map_option columns (map_of al k)"
  by (induction al) auto



lemma schemaOf_tables: "tables w' = tables w \<Longrightarrow> schemaOf w' = schemaOf w"
  by (simp add: schemaOf_def)

lemma exists_schemaOf:
  "map_of (tables w) k = None \<longleftrightarrow> map_of (schemaOf w) k = None"
  by (simp add: schemaOf_def map_of_schema)









section \<open>Properties of the schema synchronizer\<close>





lemma schemaOf_console: "schemaOf (w\<lparr>console := c\<rparr>) = schemaOf w"
  by (simp add: schemaOf_def)
















lemmas store_eval =
  dbRun_def execSQL_def awaitRun_def loopTurn_def completeAll_def complete_def effect_def
  sqlName_def reservedName_def storedRow_def List.map_filter_def asciiUpper_def
  ensureTableSchema_def getExistingColumns_def columnsOf_def
  rowsOf_def newSet_def setAdd_def emptyWorld_def noFaults_def sanitizeName_def
  sanitizeTableName_def isWordChar_def underscore_def js_def Let_def



section \<open>The orchestrator on the three runs\<close>

lemmas stream_eval =
  localStream_def remoteStream_def remoteError_def localEnd_def remoteEnd_def clearTable_def
  dataHandler_def onData_def overWriteMode_def dbClose_def

lemmas run_eval =
  ingestLocalCsv_def downloadCsvToSqlite_def isRemoteUrl_def isRemapTotal_def
  periodEnv_def periodCsv_def collidingEnv_def collidingCsv_def plainCsv_def
  cpiEnv_def cpiCsv_def lateInsert_def

text \<open>
  Claim C6 at a dataset fetched remotely. The rule fires on both rows (the notice is
  logged), both rows are written and the dataset completes, but the console holds no
  summary line; the local path, on the same text, logs the total.
\<close>

theorem remote_path_logs_no_totals:
  "fst (downloadCsvToSqlite periodEnv (js ''CPI'') (js ''https://x/cpi.csv'') 0 emptyWorld) = Resolved \<and>
   rowsOf (snd (downloadCsvToSqlite periodEnv (js ''CPI'') (js ''https://x/cpi.csv'') 0 emptyWorld))
       (js ''CPI'') =
     [[(js ''REF_DATE'', Str (js ''2020-01'')), (js ''VALUE'', Str (js ''100.2''))],
      [(js ''REF_DATE'', Str (js ''2020-02'')), (js ''VALUE'', Str (js ''100.4''))]] \<and>
   LogRemapNotice (js ''CPI'') (js ''Period'') (js ''REF_DATE'') \<in>
     set (console (snd (downloadCsvToSqlite periodEnv (js ''CPI'') (js ''https://x/cpi.csv'') 0 emptyWorld))) \<and>
   filter isRemapTotal
     (console (snd (downloadCsvToSqlite periodEnv (js ''CPI'') (js ''https://x/cpi.csv'') 0 emptyWorld))) = [] \<and>
   fst (ingestLocalCsv periodEnv (js ''CPI'') (js ''cpi.csv'') emptyWorld) = Resolved \<and>
   filter isRemapTotal (console (snd (ingestLocalCsv periodEnv (js ''CPI'') (js ''cpi.csv'') emptyWorld))) =
     [LogRemapTotal (js ''CPI'') (js ''Period>REF_DATE'') 2]"
  by (simp add: run_eval obs_eval stream_eval store_eval row_eval)

text \<open>
  Claim C1 at a local dataset whose schema synchronization fails. The rejection of
  \<^verbatim>\<open>ingestLocalCsv\<close> is awaited without a handler, the loop halts at the first
  dataset and the second is never processed: no statement is issued for it and its
  relation does not exist. With the first dataset remote, the rejection is caught and the
  second dataset is loaded.
\<close>

theorem local_rejection_halts_run:
  "fst (mainLoop collidingEnv [(js ''A'', js ''a.csv''), (js ''B'', js ''b.csv'')] 0 emptyWorld) =
     HaltedAt 0 (SqlError (CreateTable (js ''A'') [js ''REF_DATE'', js ''REF_DATE''])) \<and>
   issued (snd (mainLoop collidingEnv [(js ''A'', js ''a.csv''), (js ''B'', js ''b.csv'')] 0 emptyWorld)) =
     [(CreateTable (js ''A'') [js ''REF_DATE'', js ''REF_DATE''], False)] \<and>
   tables (snd (mainLoop collidingEnv [(js ''A'', js ''a.csv''), (js ''B'', js ''b.csv'')] 0 emptyWorld)) = [] \<and>
   fst (mainLoop collidingEnv [(js ''A'', js ''https://x/a.csv''), (js ''B'', js ''b.csv'')] 0 emptyWorld) =
     Finished \<and>
   rowsOf (snd (mainLoop collidingEnv [(js ''A'', js ''https://x/a.csv''), (js ''B'', js ''b.csv'')] 0
     emptyWorld)) (js ''B'') = [[(js ''GEO'', Str (js ''Canada'')), (js ''VALUE'', Str (js ''1''))]]"
  by (simp add: run_eval obs_eval stream_eval store_eval row_eval)

text \<open>
  Claim C2 at a remote dataset of two rows, under overwrite mode, with no failure
  anywhere. The \<^verbatim>\<open>data\<close> handler does not wait for its inserts, and under the
  schedule \<open>lateInsert\<close> the insert of the last row reaches the store after
  \<^verbatim>\<open>COMMIT\<close>: the transaction is committed before the last row is written, the row is
  written outside it, and the success notice is logged before the row is in the relation.
  Under the empty schedule the same run commits after both inserts.
\<close>

theorem commit_overtakes_insert:
  "fst (mainLoop cpiEnv [(js ''CPI'', js ''https://x/cpi.csv'')] 0
        (emptyWorld\<lparr>schedule := lateInsert\<rparr>)) = Finished \<and>
   issued (snd (mainLoop cpiEnv [(js ''CPI'', js ''https://x/cpi.csv'')] 0
        (emptyWorld\<lparr>schedule := lateInsert\<rparr>))) =
     [(CreateTable (js ''CPI'') [js ''REF_DATE'', js ''VALUE''], True),
      (TableInfo (js ''CPI''), True),
      (Begin, True),
      (DeleteFrom (js ''CPI''), True),
      (InsertInto (js ''CPI'') [js ''REF_DATE'', js ''VALUE'']
         [Str (js ''2020-01''), Str (js ''100.2'')], True),
      (Commit, True),
      (InsertInto (js ''CPI'') [js ''REF_DATE'', js ''VALUE'']
         [Str (js ''2020-02''), Str (js ''100.4'')], True)] \<and>
   console (snd (mainLoop cpiEnv [(js ''CPI'', js ''https://x/cpi.csv'')] 0
        (emptyWorld\<lparr>schedule := lateInsert\<rparr>))) =
     [LogFetching 0 (js ''CPI''), LogOverwriteCleared (js ''CPI''), LogInsertedDone (js ''CPI'')] \<and>
   pending (snd (downloadCsvToSqlite cpiEnv (js ''CPI'') (js ''https://x/cpi.csv'') 0
        (emptyWorld\<lparr>schedule := lateInsert\<rparr>))) =
     [(js ''CPI'', [js ''REF_DATE'', js ''VALUE''], [Str (js ''2020-02''), Str (js ''100.4'')])] \<and>
   rowsOf (snd (downloadCsvToSqlite cpiEnv (js ''CPI'') (js ''https://x/cpi.csv'') 0
        (emptyWorld\<lparr>schedule := lateInsert\<rparr>))) (js ''CPI'') =
     [[(js ''REF_DATE'', Str (js ''2020-01'')), (js ''VALUE'', Str (js ''100.2''))]] \<and>
   map fst (issued (snd (mainLoop cpiEnv [(js ''CPI'', js ''https://x/cpi.csv'')] 0 emptyWorld))) =
     [CreateTable (js ''CPI'') [js ''REF_DATE'', js ''VALUE''],
      TableInfo (js ''CPI''),
      Begin,
      DeleteFrom (js ''CPI''),
      InsertInto (js ''CPI'') [js ''REF_DATE'', js ''VALUE''] [Str (js ''2020-01''), Str (js ''100.2'')],
      InsertInto (js ''CPI'') [js ''REF_DATE'', js ''VALUE''] [Str (js ''2020-02''), Str (js ''100.4'')],
      Commit]"
  by (simp add: run_eval obs_eval stream_eval store_eval row_eval)

section \<open>The remapper on names that no object inherits\<close>

lemma getProp_own:
  "k \<notin> set objectPrototypeNames \<Longrightarrow> getProp obj k = map_of obj k"
  by (cases "map_of obj k") (simp_all add: getProp_def)

lemma proto_in_names: "js ''__proto__'' \<in> set objectPrototypeNames"
  by (simp add: objectPrototypeNames_def)

lemma setProp_own:
  "k \<notin> set objectPrototypeNames \<Longrightarrow> map_of (setProp obj k v) = (map_of obj)(k \<mapsto> v)"
  using proto_in_names by (auto simp: setProp_def map_of_update_eq)

lemma applyRule_ordinary_idle:
  assumes "sanitizeName incoming \<notin> set objectPrototypeNames"
    and "map_of raw (sanitizeName incoming) = None \<or> sanitizeName target \<notin> set cols"
  shows "applyRule t cols (raw, rm, out) (incoming, target) = (raw, rm, out)"
  using assms by (auto simp: applyRule_def getProp_own Let_def split: option.splits)

lemma applyRule_ordinary_fires:
  assumes "sanitizeName incoming \<notin> set objectPrototypeNames"
    and "sanitizeName target \<notin> set objectPrototypeNames"
    and "map_of raw (sanitizeName incoming) = Some v" and "sanitizeName target \<in> set cols"
    and "applyRule t cols (raw, rm, out) (incoming, target) = (raw', rm', out')"
  shows "map_of (remapCounts rm') (remapKey (sanitizeName incoming) (sanitizeName target)) =
      Some ((case map_of (remapCounts rm) (remapKey (sanitizeName incoming) (sanitizeName target))
             of None \<Rightarrow> 0 | Some c \<Rightarrow> c) + 1)"
    and "map_of raw' =
      (if map_of raw (sanitizeName target) = None
       then (map_of raw)(sanitizeName target \<mapsto> v) else map_of raw)(sanitizeName incoming := None)"
proof -
  have g: "getProp raw (sanitizeName incoming) = Some v"
    using assms(1,3) by (simp add: getProp_own)
  have gt: "getProp raw (sanitizeName target) = map_of raw (sanitizeName target)"
    using assms(2) by (rule getProp_own)
  have rm': "remapCounts rm' = AList.update (remapKey (sanitizeName incoming) (sanitizeName target))
      ((case map_of (remapCounts rm) (remapKey (sanitizeName incoming) (sanitizeName target))
        of None \<Rightarrow> 0 | Some c \<Rightarrow> c) + 1) (remapCounts rm)"
    using assms(4,5) g by (auto simp: applyRule_def Let_def)
  show "map_of (remapCounts rm') (remapKey (sanitizeName incoming) (sanitizeName target)) =
      Some ((case map_of (remapCounts rm) (remapKey (sanitizeName incoming) (sanitizeName target))
             of None \<Rightarrow> 0 | Some c \<Rightarrow> c) + 1)"
    by (simp add: rm' map_of_update_eq)
  have "raw' = remapEntries cols raw (incoming, target)"
    using applyRule_entries [of t cols raw rm out "(incoming, target)"] assms(5) by simp
  then have "raw' = deleteProp (if map_of raw (sanitizeName target) = None
      then setProp raw (sanitizeName target) v else raw) (sanitizeName incoming)"
    using g gt assms(4) by (simp add: remapEntries_def)
  then show "map_of raw' =
      (if map_of raw (sanitizeName target) = None
       then (map_of raw)(sanitizeName target \<mapsto> v) else map_of raw)(sanitizeName incoming := None)"
    using setProp_own [OF assms(2)] by (simp add: deleteProp_def map_of_delete_eq)
qed

section \<open>Summary lines of the two ingestion paths\<close>

lemma notice_not_total: "isRemapNotice l \<Longrightarrow> \<not> isRemapTotal l"
  by (cases l) (simp_all add: isRemapNotice_def isRemapTotal_def)

lemma filter_total_notices:
  "\<forall>l \<in> set ns. isRemapNotice l \<Longrightarrow> filter isRemapTotal (out @ ns) = filter isRemapTotal out"
  by (induction ns rule: rev_induct) (simp_all add: notice_not_total)

lemma complete_totals:
  "filter isRemapTotal (console (complete flt w i)) = filter isRemapTotal (console w)"
proof (cases "i < length (pending w)")
  case False
  then show ?thesis by (simp add: complete_def)
next
  case True
  obtain t ks vs where p: "pending w ! i = (t, ks, vs)" by (cases "pending w ! i") auto
  let ?w0 = "w\<lparr>pending := take i (pending w) @ drop (Suc i) (pending w)\<rparr>"
  obtain ok w1 where r: "dbRun flt (InsertInto t ks vs) ?w0 = (ok, w1)"
    by (cases "dbRun flt (InsertInto t ks vs) ?w0") auto
  have "console w1 = console w" using dbRun_keeps [OF r] by simp
  then show ?thesis
    using True p r by (cases ok) (simp_all add: complete_def isRemapTotal_def)
qed

lemma foldl_complete_totals:
  "filter isRemapTotal (console (foldl (complete flt) w picks)) = filter isRemapTotal (console w)"
  by (induction picks arbitrary: w) (simp_all add: complete_totals)

lemma loopTurn_totals:
  "filter isRemapTotal (console (loopTurn flt w)) = filter isRemapTotal (console w)"
  by (cases "schedule w") (simp_all add: loopTurn_def completeAll_def foldl_complete_totals)

lemma awaitRun_totals:
  "awaitRun flt s w = (ok, w') \<Longrightarrow>
   filter isRemapTotal (console w') = filter isRemapTotal (console w)"
  using dbRun_keeps [of flt s "loopTurn flt w" ok w'] loopTurn_totals [of flt w]
  by (simp add: awaitRun_def)

lemma dataHandler_totals:
  assumes "dataHandler migr t cols (rm, w) row = (rm', w')"
  shows "filter isRemapTotal (console w') = filter isRemapTotal (console w)"
proof -
  obtain ns where "console w' = console w @ ns" "\<forall>l \<in> set ns. isRemapNotice l"
    using dataHandler_console [OF assms] by blast
  then show ?thesis using filter_total_notices by simp
qed

lemma onData_pair:
  "onData flt migr t cols (rm, w) row = dataHandler migr t cols (rm, loopTurn flt w) row"
  by (simp add: onData_def)

lemma onData_fold_totals:
  "foldl (onData flt migr t cols) (rm, w) rws = (rm', w') \<Longrightarrow>
   filter isRemapTotal (console w') = filter isRemapTotal (console w)"
proof (induction rws arbitrary: rm w)
  case Nil
  then show ?case by simp
next
  case (Cons row rws)
  obtain rm1 w1 where step: "dataHandler migr t cols (rm, loopTurn flt w) row = (rm1, w1)"
    by (cases "dataHandler migr t cols (rm, loopTurn flt w) row") auto
  then have "foldl (onData flt migr t cols) (rm1, w1) rws = (rm', w')"
    using Cons.prems by (simp add: onData_pair)
  then have "filter isRemapTotal (console w') = filter isRemapTotal (console w1)"
    by (rule Cons.IH)
  then show ?case using dataHandler_totals [OF step] loopTurn_totals [of flt w] by simp
qed

lemma addMissing_totals:
  "addMissing flt t incoming existingCols w = (r, w') \<Longrightarrow>
   filter isRemapTotal (console w') = filter isRemapTotal (console w)"
proof (induction incoming arbitrary: existingCols w)
  case Nil
  then show ?case by simp
next
  case (Cons col incoming)
  show ?case
  proof (cases "col \<in> set existingCols")
    case True
    then have "addMissing flt t incoming existingCols w = (r, w')"
      using Cons.prems by simp
    then show ?thesis by (rule Cons.IH)
  next
    case False
    let ?w0 = "w\<lparr>console := console w @ [LogSchemaChange col t]\<rparr>"
    obtain ok w1 where run: "awaitRun flt (AddColumn t col) ?w0 = (ok, w1)"
      by (cases "awaitRun flt (AddColumn t col) ?w0") auto
    have c1: "filter isRemapTotal (console w1) = filter isRemapTotal (console w)"
      using awaitRun_totals [OF run] by (simp add: isRemapTotal_def)
    show ?thesis
    proof (cases ok)
      case True
      then have "addMissing flt t incoming (setAdd existingCols col) w1 = (r, w')"
        using Cons.prems False run by simp
      then have "filter isRemapTotal (console w') = filter isRemapTotal (console w1)"
        by (rule Cons.IH)
      then show ?thesis using c1 by simp
    next
      case False
      then have "w' = w1"
        using Cons.prems \<open>col \<notin> set existingCols\<close> run by simp
      then show ?thesis using c1 by simp
    qed
  qed
qed

lemma ensureTableSchema_totals:
  assumes "ensureTableSchema flt t H w = (r, w')"
  shows "filter isRemapTotal (console w') = filter isRemapTotal (console w)"
proof -
  let ?inc = "map sanitizeName H"
  obtain ok1 w1 where c: "awaitRun flt (CreateTable t ?inc) w = (ok1, w1)"
    by (cases "awaitRun flt (CreateTable t ?inc) w") auto
  obtain ok2 w2 where i: "awaitRun flt (TableInfo t) w1 = (ok2, w2)"
    by (cases "awaitRun flt (TableInfo t) w1") auto
  have c1: "filter isRemapTotal (console w1) = filter isRemapTotal (console w)"
    by (rule awaitRun_totals [OF c])
  have c2: "filter isRemapTotal (console w2) = filter isRemapTotal (console w)"
    using awaitRun_totals [OF i] c1 by simp
  show ?thesis
  proof (cases "ok1 \<and> ok2")
    case True
    then have "addMissing flt t ?inc (newSet (columnsOf w2 t)) w2 = (r, w')"
      using assms c i by (simp add: ensureTableSchema_def getExistingColumns_def Let_def)
    then show ?thesis using addMissing_totals c2 by simp
  next
    case False
    then have "w' = w1 \<or> w' = w2"
      using assms c i
      by (cases ok1; cases ok2) (simp_all add: ensureTableSchema_def getExistingColumns_def Let_def)
    then show ?thesis using c1 c2 by auto
  qed
qed

lemma clearTable_totals:
  assumes "clearTable flt t w = (res, w')"
  shows "filter isRemapTotal (console w') = filter isRemapTotal (console w)"
proof -
  obtain b w1 where 1: "awaitRun flt Begin w = (b, w1)"
    by (cases "awaitRun flt Begin w") auto
  obtain d w2 where 2: "awaitRun flt (DeleteFrom t) w1 = (d, w2)"
    by (cases "awaitRun flt (DeleteFrom t) w1") auto
  obtain r w3 where 3: "awaitRun flt Rollback w2 = (r, w3)"
    by (cases "awaitRun flt Rollback w2") auto
  have c1: "filter isRemapTotal (console w1) = filter isRemapTotal (console w)"
    by (rule awaitRun_totals [OF 1])
  have c2: "filter isRemapTotal (console w2) = filter isRemapTotal (console w)"
    using awaitRun_totals [OF 2] c1 by simp
  have c3: "filter isRemapTotal (console w3) = filter isRemapTotal (console w)"
    using awaitRun_totals [OF 3] c2 by simp
  have "w' = w1 \<or> w' = w2\<lparr>console := console w2 @ [LogOverwriteCleared t]\<rparr> \<or> w' = w3"
    using assms 1 2 3
    by (cases b; cases d; cases r) (simp_all add: clearTable_def execSQL_def)
  then show ?thesis using c1 c2 c3 by (auto simp: isRemapTotal_def)
qed

lemma remoteError_totals:
  "filter isRemapTotal (console (remoteError t e w)) = filter isRemapTotal (console w)"
  by (cases e) (simp_all add: remoteError_def isRemapTotal_def)

lemma remoteEnd_totals:
  assumes "remoteEnd flt t (rm, w) = (out, w')"
  shows "filter isRemapTotal (console w') = filter isRemapTotal (console w)"
proof -
  obtain c w1 where r: "awaitRun flt Commit w = (c, w1)"
    by (cases "awaitRun flt Commit w") auto
  have "filter isRemapTotal (console w1) = filter isRemapTotal (console w)"
    by (rule awaitRun_totals [OF r])
  then show ?thesis
    using assms r by (cases c) (auto simp: remoteEnd_def overWriteMode_def execSQL_def isRemapTotal_def)
qed

lemma remoteStream_totals:
  assumes "remoteStream flt migr name t p w = (out, w')"
  shows "filter isRemapTotal (console w') = filter isRemapTotal (console w)"
proof -
  let ?w0 = "loopTurn flt w"
  have t0: "filter isRemapTotal (console ?w0) = filter isRemapTotal (console w)"
    by (rule loopTurn_totals)
  show ?thesis
  proof (cases p)
    case (NoHeaderEvent e)
    then have "w' = ?w0 \<or> w' = remoteError t e ?w0"
      using assms by (cases e) (auto simp: remoteStream_def Let_def)
    then show ?thesis using t0 remoteError_totals by auto
  next
    case (HeaderEvent headers rws e)
    show ?thesis
    proof (cases "length headers = 0")
      case True
      then have "w' = remoteError t e (?w0\<lparr>console := console ?w0 @ [LogNoHeaders name]\<rparr>)"
        using assms HeaderEvent by (simp add: remoteStream_def Let_def)
      then show ?thesis using t0 by (simp add: remoteError_totals isRemapTotal_def)
    next
      case False
      obtain r w1 where s: "ensureTableSchema flt t headers ?w0 = (r, w1)"
        by (cases "ensureTableSchema flt t headers ?w0") auto
      have t1: "filter isRemapTotal (console w1) = filter isRemapTotal (console w)"
        using ensureTableSchema_totals [OF s] t0 by simp
      show ?thesis
      proof (cases r)
        case (Inl err)
        then have "w' = remoteError t e w1"
          using assms HeaderEvent False s by (simp add: remoteStream_def Let_def)
        then show ?thesis using t1 by (simp add: remoteError_totals)
      next
        case (Inr cols)
        obtain res w2 where cl: "clearTable flt t w1 = (res, w2)"
          by (cases "clearTable flt t w1") auto
        have t2: "filter isRemapTotal (console w2) = filter isRemapTotal (console w)"
          using clearTable_totals [OF cl] t1 by simp
        show ?thesis
        proof (cases res)
          case (Inl err)
          then have "w' = remoteError t e w2"
            using assms HeaderEvent False s \<open>r = Inr cols\<close> cl
            by (simp add: remoteStream_def overWriteMode_def Let_def)
          then show ?thesis using t2 by (simp add: remoteError_totals)
        next
          case (Inr u)
          obtain rm w3 where fold: "foldl (onData flt migr t cols) (newRemap, w2) rws = (rm, w3)"
            by (cases "foldl (onData flt migr t cols) (newRemap, w2) rws") auto
          have t3: "filter isRemapTotal (console w3) = filter isRemapTotal (console w)"
            using onData_fold_totals [OF fold] t2 by simp
          show ?thesis
          proof (cases e)
            case End
            then have "remoteEnd flt t (rm, w3) = (out, w')"
              using assms HeaderEvent False s \<open>r = Inr cols\<close> cl Inr fold
              by (simp add: remoteStream_def overWriteMode_def Let_def)
            then show ?thesis using remoteEnd_totals t3 by simp
          next
            case StreamError
            then have "w' = remoteError t e (loopTurn flt w3)"
              using assms HeaderEvent False s \<open>r = Inr cols\<close> cl Inr fold
              by (simp add: remoteStream_def overWriteMode_def Let_def)
            then show ?thesis using t3 loopTurn_totals [of flt w3] by (simp add: remoteError_totals)
          qed
        qed
      qed
    qed
  qed
qed

text \<open>No run of the remote path writes a summary line, whatever the dataset and the schedule.\<close>

lemma downloadCsvToSqlite_totals:
  assumes "downloadCsvToSqlite env name url index w = (out, w')"
  shows "filter isRemapTotal (console w') = filter isRemapTotal (console w)"
proof -
  let ?w0 = "loopTurn (faults env) (w\<lparr>console := console w @ [LogFetching index name]\<rparr>)"
  have t0: "filter isRemapTotal (console ?w0) = filter isRemapTotal (console w)"
    using loopTurn_totals [of "faults env" "w\<lparr>console := console w @ [LogFetching index name]\<rparr>"]
    by (simp add: isRemapTotal_def)
  show ?thesis
  proof (cases "fetch env url")
    case NetworkError
    then have "w' = ?w0\<lparr>console := console ?w0 @ [LogFetchFailed name]\<rparr>"
      using assms by (simp add: downloadCsvToSqlite_def Let_def)
    then show ?thesis using t0 by (simp add: isRemapTotal_def)
  next
    case (Response ok status data)
    show ?thesis
    proof (cases ok)
      case False
      then have "w' = ?w0\<lparr>console := console ?w0 @ [LogFetchFailed name]\<rparr>"
        using assms Response by (simp add: downloadCsvToSqlite_def Let_def)
      then show ?thesis using t0 by (simp add: isRemapTotal_def)
    next
      case True
      let ?w1 = "if extractObservationsCSV data \<noteq> None
        then ?w0\<lparr>console := console ?w0 @ [LogDetectedBoC]\<rparr> else ?w0"
      have "remoteStream (faults env) (automigrations env) name (sanitizeTableName name)
          (csvParser env (payloadOf data)) ?w1 = (out, w')"
        using assms Response True by (simp add: downloadCsvToSqlite_def Let_def)
      then have "filter isRemapTotal (console w') = filter isRemapTotal (console ?w1)"
        by (rule remoteStream_totals)
      then show ?thesis using t0 by (simp add: isRemapTotal_def)
    qed
  qed
qed

section \<open>The main loop at a dataset that rejects\<close>

lemma mainLoop_local_rejection:
  assumes "\<not> isRemoteUrl urlOrPath" and "readFile env urlOrPath \<noteq> None"
    and "ingestLocalCsv env name urlOrPath
           (w\<lparr>console := console w @ [LogUsingLocal name urlOrPath]\<rparr>) = (Rejected err, w1)"
  shows "mainLoop env ((name, urlOrPath) # rest) index w = (HaltedAt index err, w1)"
  using assms by auto

lemma mainLoop_remote_rejection:
  assumes "isRemoteUrl urlOrPath"
    and "downloadCsvToSqlite env name urlOrPath index w = (Rejected err, w1)"
  shows "mainLoop env ((name, urlOrPath) # rest) index w =
    mainLoop env rest (Suc index) (w1\<lparr>console := console w1 @ [LogErrorProcessing name]\<rparr>)"
  using assms by simp

end
